theory Spec2Isabelle
  imports Complex_Main "HOL-Library.Word"
begin

unbundle bit_operations_syntax

section \<open>JavaScript values\<close>

text \<open>
  A JavaScript string is a sequence of UTF-16 code units and \<open>.length\<close> counts
  code units, so strings are lists of 16-bit words.  String literals of the source that
  are plain ASCII are written with \<open>ascii\<close>.
\<close>

type_synonym jschar = "16 word"
type_synonym jsstring = "jschar list"

definition ascii :: "string \<Rightarrow> jsstring" where
  "ascii cs = map (\<lambda>c. of_nat (of_char c)) cs"

text \<open>
  Numbers of the document model are only tested for truthiness, compared and interpolated
  by the generator.  They are rationals; \<open>None\<close> stands for a value that is
  \<open>NaN\<close>, \<open>undefined\<close> or \<open>null\<close> (all falsy).
\<close>

type_synonym jsnum = "rat option"

definition truthy_num :: "jsnum \<Rightarrow> bool" where
  "truthy_num n = (case n of None \<Rightarrow> False | Some x \<Rightarrow> x \<noteq> 0)"

definition truthy_str :: "jsstring option \<Rightarrow> bool" where
  "truthy_str s = (case s of None \<Rightarrow> False | Some cs \<Rightarrow> cs \<noteq> [])"

subsection \<open>parseInt\<close>

text \<open>
  \<open>parseInt(string, radix)\<close> of ECMAScript: leading white space is skipped, a sign is
  read, a \<open>0x\<close> prefix is stripped when the radix is 16 or undefined (written 0 here),
  and the longest prefix of digits of the radix is the value; \<open>None\<close> is \<open>NaN\<close>.
  The value is the exact integer (a double represents it exactly below \<open>2^53\<close>).
\<close>

definition isWhiteSpace :: "jschar \<Rightarrow> bool" where
  "isWhiteSpace c =
     (let n = unat c in
      n \<in> set [0x09, 0x0A, 0x0B, 0x0C, 0x0D, 0x20, 0xA0, 0x1680,
                 0x2028, 0x2029, 0x202F, 0x205F, 0x3000, 0xFEFF]
      \<or> (0x2000 \<le> n \<and> n \<le> 0x200A))"

definition digitValue :: "jschar \<Rightarrow> nat option" where
  "digitValue c =
     (let n = unat c in
      if 48 \<le> n \<and> n \<le> 57 then Some (n - 48)
      else if 65 \<le> n \<and> n \<le> 90 then Some (n - 55)
      else if 97 \<le> n \<and> n \<le> 122 then Some (n - 87)
      else None)"

definition radixDigit :: "nat \<Rightarrow> jschar \<Rightarrow> nat option" where
  "radixDigit R c =
     (case digitValue c of
        None \<Rightarrow> None
      | Some d \<Rightarrow> if d < R then Some d else None)"

fun digitsPrefix :: "nat \<Rightarrow> jsstring \<Rightarrow> nat list" where
  "digitsPrefix R [] = []"
| "digitsPrefix R (c # cs) =
     (case radixDigit R c of
        None \<Rightarrow> []
      | Some d \<Rightarrow> d # digitsPrefix R cs)"

definition parseInt :: "jsstring \<Rightarrow> nat \<Rightarrow> int option" where
  "parseInt string radix =
     (let S0 = dropWhile isWhiteSpace string;
          sign = (if take 1 S0 = [0x2D] then - 1 else 1 :: int);
          S1 = (if take 1 S0 = [0x2B] \<or> take 1 S0 = [0x2D] then drop 1 S0 else S0)
      in if radix \<noteq> 0 \<and> (radix < 2 \<or> 36 < radix) then None
         else
           let stripPrefix = (radix = 0 \<or> radix = 16);
               hasPrefix = (stripPrefix \<and> (take 2 S1 = [0x30, 0x78] \<or> take 2 S1 = [0x30, 0x58]));
               R = (if hasPrefix then 16 else if radix = 0 then 10 else radix);
               S2 = (if hasPrefix then drop 2 S1 else S1);
               Z = digitsPrefix R S2
           in if Z = [] then None
              else Some (sign * int (foldl (\<lambda>a d. a * R + d) 0 Z)))"

text \<open>\<open>ToInt32\<close>, applied by the bitwise operators: \<open>NaN\<close> becomes 0, an integer wraps.\<close>

definition toInt32 :: "int option \<Rightarrow> 32 word" where
  "toInt32 n = (case n of None \<Rightarrow> 0 | Some i \<Rightarrow> word_of_int i)"

section \<open>Colour conversion\<close>

text \<open>
  \<open>UdfGenerator.hexToRgbInt\<close> (the same text in both generator files).  A falsy
  argument (\<open>undefined\<close>, \<open>null\<close> or the empty string) gives black.  Otherwise the
  first \<open>#\<close> is removed, three two-character substrings are read in base 16 and the
  result is assembled with 32-bit shifts and ors, read as a signed integer.
\<close>

definition hexToRgbInt :: "jsstring option \<Rightarrow> int" where
  "hexToRgbInt hex =
     (case hex of
        None \<Rightarrow> - 16777216
      | Some h0 \<Rightarrow>
          if h0 = [] then - 16777216
          else
            let h = remove1 0x23 h0;
                r = parseInt (take 2 h) 16;
                g = parseInt (take 2 (drop 2 h)) 16;
                b = parseInt (take 2 (drop 4 h)) 16;
                rgb = push_bit 24 (255 :: 32 word) OR push_bit 16 (toInt32 r)
                        OR push_bit 8 (toInt32 g) OR toInt32 b
            in sint (rgb OR 0))"

section \<open>The document model\<close>

text \<open>
  The parsed document handed to the generator (\<open>document.elements\<close>): paragraphs and
  tables.  A run is the tagged object of the source with \<open>type\<close> one of
  \<open>'text'\<close>, \<open>'tab'\<close>, \<open>'image'\<close>, \<open>'break'\<close>, \<open>'pageBreak'\<close>,
  \<open>'footnoteRef'\<close>.  Optional strings are \<open>None\<close> when \<open>null\<close> or
  \<open>undefined\<close>.
\<close>

record text_run =
  text_str :: jsstring
  bold :: bool
  italic :: bool
  underline :: bool
  strike :: bool
  fontFamily :: "jsstring option"
  fontSize :: jsnum
  color :: "jsstring option"

datatype run =
    Text text_run
  | Tab
  | Image "jsstring option" jsnum jsnum
  | Break
  | PageBreak
  | FootnoteRef jsstring jsstring

record numbering_info =
  level :: jsnum
  numId :: "jsstring option"

record para =
  alignment :: jsstring
  leftIndent :: jsnum
  rightIndent :: jsnum
  firstLineIndent :: jsnum
  numbering :: "numbering_info option"
  runs :: "run list"

record cell =
  paragraphs :: "para list"
  colspan :: jsnum
  vMergeContinue :: bool
  vMergeStart :: bool
  vAlign :: "jsstring option"
  bgColor :: "jsstring option"

record row =
  cells :: "cell list"

record table =
  rows :: "row list"
  columnWidths :: "jsnum list"
  border :: jsstring

datatype block = Paragraph para | Table table

type_synonym document = "block list"

section \<open>The generated elements\<close>

text \<open>
  The generator builds every element as a template string.  Each template is a
  constructor here, holding the interpolated values in the order of the template; an
  attribute list holds the attributes in the order they are written.  \<open>ANum n\<close> is the
  interpolation \<open>${n}\<close> of a number, \<open>ANumDot0 n\<close> is \<open>${n}.0\<close>, \<open>AStr s\<close> is
  the string \<open>s\<close>.

  \<^item> \<open>ContentEl off len attrs\<close> is \<open><content startOffset="off" length="len" attrs />\<close>;
  \<^item> \<open>TabEl off len\<close> is \<open><tab startOffset="off" length="len" />\<close>;
  \<^item> \<open>ImageEl off len data w h\<close> is
    \<open><image startOffset="off" length="len" imageData="data" width="w" height="h" />\<close>;
  \<^item> \<open>ParagraphEl attrs children\<close> is \<open><paragraph attrs>children</paragraph>\<close>;
  \<^item> \<open>CellEl attrs paras\<close> is \<open><cell attrs>paras</cell>\<close>;
  \<^item> \<open>RowEl n cells\<close> is \<open><row rowName="row n" rowType="dataRow">cells</row>\<close>;
  \<^item> \<open>TableEl count spans border rows\<close> is
    \<open><table tableName="Table" columnCount="count" columnSpans="spans" border="border">rows</table>\<close>;
  \<^item> \<open>PageBreakEl\<close> is \<open><page-break />\<close>.
\<close>

datatype aval = AStr jsstring | ANum jsnum | ANumDot0 jsnum

type_synonym attrs = "(string \<times> aval) list"

datatype leaf =
    ContentEl nat nat attrs
  | TabEl nat nat
  | ImageEl nat nat jsstring jsnum jsnum

datatype para_el = ParagraphEl attrs "leaf list"

datatype cell_el = CellEl attrs "para_el list"

datatype row_el = RowEl nat "cell_el list"

datatype element =
    ParagraphElem para_el
  | PageBreakEl
  | TableEl nat "jsnum list" jsstring "row_el list"

text \<open>The literal attribute strings of the source.\<close>

definition timesNewRoman :: jsstring where
  "timesNewRoman = ascii ''Times New Roman''"

definition trueAttr :: aval where
  "trueAttr = AStr (ascii ''true'')"

definition defaultContentAttrs :: attrs where
  "defaultContentAttrs = [(''family'', AStr timesNewRoman), (''size'', ANum (Some 12))]"

definition size10Attrs :: attrs where
  "size10Attrs = [(''family'', AStr timesNewRoman), (''size'', ANum (Some 10))]"

definition superscriptAttrs :: attrs where
  "superscriptAttrs =
     [(''family'', AStr timesNewRoman), (''size'', ANum (Some 10)), (''superscript'', trueAttr)]"

definition defaultParagraphAttrs :: attrs where
  "defaultParagraphAttrs =
     [(''Alignment'', AStr (ascii ''0'')), (''LeftIndent'', AStr (ascii ''0.0'')),
      (''RightIndent'', AStr (ascii ''0.0''))]"

section \<open>Functions shared by both generator files\<close>

text \<open>\<open>escapeXml\<close> of \<open>utils.js\<close>: five global replacements, in the source's order.\<close>

definition replaceAll :: "jschar \<Rightarrow> jsstring \<Rightarrow> jsstring \<Rightarrow> jsstring" where
  "replaceAll c by_str s = concat (map (\<lambda>x. if x = c then by_str else [x]) s)"

definition escapeXml :: "jsstring \<Rightarrow> jsstring" where
  "escapeXml text_arg =
     (if text_arg = [] then []
      else replaceAll 0x27 (ascii ''&apos;'')
            (replaceAll 0x22 (ascii ''&quot;'')
              (replaceAll 0x3E (ascii ''&gt;'')
                (replaceAll 0x3C (ascii ''&lt;'')
                  (replaceAll 0x26 (ascii ''&amp;'') text_arg)))))"

text \<open>\<open>a || b\<close> on an optional string and on a number.\<close>

definition or_str :: "jsstring option \<Rightarrow> jsstring \<Rightarrow> jsstring" where
  "or_str a b = (case a of None \<Rightarrow> b | Some cs \<Rightarrow> if cs = [] then b else cs)"

definition or_num :: "jsnum \<Rightarrow> rat \<Rightarrow> jsnum" where
  "or_num a b = (if truthy_num a then a else Some b)"

definition buildContentAttrs :: "text_run \<Rightarrow> attrs" where
  "buildContentAttrs run =
     [(''family'', AStr (escapeXml (or_str (fontFamily run) timesNewRoman))),
      (''size'', ANum (or_num (fontSize run) 12))]
     @ (if bold run then [(''bold'', trueAttr)] else [])
     @ (if italic run then [(''italic'', trueAttr)] else [])
     @ (if underline run then [(''underline'', trueAttr)] else [])
     @ (if strike run then [(''strikethrough'', trueAttr)] else [])
     @ (if truthy_str (color run)
        then [(''foreground'', ANum (Some (of_int (hexToRgbInt (color run)))))]
        else [])"

text \<open>
  The object literal \<open>alignmentMap\<close> of \<open>buildParagraphElement\<close>, as an association
  list (properties inherited from the prototype are not part of the model).
\<close>

definition alignmentMap :: "(jsstring \<times> jsstring) list" where
  "alignmentMap =
     [(ascii ''left'', ascii ''0''), (ascii ''center'', ascii ''1''),
      (ascii ''right'', ascii ''2''), (ascii ''justify'', ascii ''3'')]"

text \<open>The string a template writes for an optional string (\<open>null\<close> is written out).\<close>

definition toString_opt :: "jsstring option \<Rightarrow> jsstring" where
  "toString_opt a = (case a of None \<Rightarrow> ascii ''null'' | Some cs \<Rightarrow> cs)"

definition numberingAttrs :: "numbering_info \<Rightarrow> attrs" where
  "numberingAttrs n =
     (let isBulleted =
            (case parseInt (toString_opt (numId n)) 0 of
               None \<Rightarrow> False
             | Some k \<Rightarrow> k mod 2 = 0)
      in if isBulleted
         then [(''Bulleted'', trueAttr), (''BulletType'', AStr (ascii ''BULLET_TYPE_ELLIPSE'')),
               (''ListLevel'', ANum (level n)), (''ListId'', AStr (toString_opt (numId n)))]
         else [(''Numbered'', trueAttr), (''NumberType'', AStr (ascii ''NUMBER_TYPE_NUMBER_TRE'')),
               (''ListLevel'', ANum (level n)), (''ListId'', AStr (toString_opt (numId n)))])"

definition buildParagraphElement :: "para \<Rightarrow> leaf list \<Rightarrow> para_el" where
  "buildParagraphElement p childElements =
     (let alignment_code =
            (case map_of alignmentMap (alignment p) of
               None \<Rightarrow> ascii ''0''
             | Some v \<Rightarrow> v);
          attrs =
            [(''Alignment'', AStr alignment_code)]
            @ [(''LeftIndent'',
                if truthy_num (leftIndent p) then ANumDot0 (leftIndent p) else AStr (ascii ''0.0''))]
            @ [(''RightIndent'',
                if truthy_num (rightIndent p) then ANumDot0 (rightIndent p) else AStr (ascii ''0.0''))]
            @ (if truthy_num (firstLineIndent p)
               then [(''FirstLineIndent'', ANumDot0 (firstLineIndent p))] else [])
            @ (case numbering p of None \<Rightarrow> [] | Some n \<Rightarrow> numberingAttrs n)
      in ParagraphEl attrs childElements)"

text \<open>The attributes of a cell element (\<open>processTable\<close>, the same text in both files).\<close>

definition cellAttrs :: "cell \<Rightarrow> attrs" where
  "cellAttrs c =
     (if (case colspan c of None \<Rightarrow> False | Some n \<Rightarrow> 1 < n)
      then [(''colspan'', ANum (colspan c))] else [])
     @ (if truthy_str (bgColor c)
        then [(''bgColor'', ANum (Some (of_int (hexToRgbInt (bgColor c)))))] else [])
     @ (if truthy_str (vAlign c) then [(''vAlign'', AStr (toString_opt (vAlign c)))] else [])"

text \<open>
  Column count and column spans of \<open>processTable\<close>.  The spans are computed by the
  source in floating point; here they are exact rationals rounded half up as
  \<open>Math.round\<close> does, and a result that is not a finite number is \<open>None\<close>.
\<close>

definition js_add :: "jsnum \<Rightarrow> jsnum \<Rightarrow> jsnum" where
  "js_add a b = (case (a, b) of (Some x, Some y) \<Rightarrow> Some (x + y) | _ \<Rightarrow> None)"

definition math_round :: "rat \<Rightarrow> rat" where
  "math_round x = of_int \<lfloor>x + 1 / 2\<rfloor>"

definition columnShare :: "jsnum \<Rightarrow> jsnum \<Rightarrow> jsnum" where
  "columnShare total_w w =
     (case (w, total_w) of
        (Some x, Some t) \<Rightarrow> if t = 0 then None else Some (math_round (x / t * 300))
      | _ \<Rightarrow> None)"

definition tableColumnCount :: "table \<Rightarrow> nat" where
  "tableColumnCount t =
     (if length (columnWidths t) \<noteq> 0 then length (columnWidths t)
      else (case rows t of [] \<Rightarrow> 1 | r # _ \<Rightarrow> length (cells r)))"

definition tableColumnSpans :: "table \<Rightarrow> jsnum list" where
  "tableColumnSpans t =
     (if 0 < length (columnWidths t)
      then (let total_w = foldl js_add (Some 0) (columnWidths t)
            in map (columnShare total_w) (columnWidths t))
      else (let columnCount = tableColumnCount t;
                equalWidth = (if columnCount = 0 then None
                              else Some (math_round (300 / of_nat columnCount)))
            in replicate columnCount equalWidth))"

section \<open>The generator state\<close>

text \<open>
  The fields of \<open>UdfGenerator\<close>.  The generator of \<open>src/js/udf-generator.js\<close> has the
  first three; the generator of \<open>src/unnamed/part_000\<close> adds \<open>collectedFootnotes\<close>,
  a list of \<open>{number, text}\<close> objects.
\<close>

record footnote =
  number :: jsstring
  body :: jsstring

record gen_state0 =
  content :: jsstring
  elements :: "element list"
  currentOffset :: nat

record gen_state = gen_state0 +
  collectedFootnotes :: "footnote list"

text \<open>
  \<open>generateXml\<close> (the same text in both files) fills a constant template with
  \<open>this.content\<close> and \<open>this.elements.join('\n')\<close>; nothing else of the string varies.
\<close>

datatype udf_xml = UdfXml jsstring "element list"

definition generateXml :: "'a gen_state0_scheme \<Rightarrow> udf_xml" where
  "generateXml s = UdfXml (content s) (elements s)"

definition placeholderParagraph :: "nat \<Rightarrow> para_el" where
  "placeholderParagraph off =
     ParagraphEl defaultParagraphAttrs [ContentEl off 1 defaultContentAttrs]"

section \<open>The generator with footnotes (\<open>src/unnamed/part_000\<close>)\<close>

subsection \<open>appendFootnotesSection\<close>

definition separator :: jsstring where
  "separator = replicate 20 0x2500"

text \<open>The loop over \<open>this.collectedFootnotes\<close> (lines 148 to 172).\<close>

fun appendFootnotesSection_loop :: "footnote list \<Rightarrow> gen_state \<Rightarrow> gen_state" where
  "appendFootnotesSection_loop [] s = s"
| "appendFootnotesSection_loop (f # fs) s =
     (let s1 = s\<lparr>content := content s @ [0x0A], currentOffset := currentOffset s + 1\<rparr>;
          numPart = number f @ ascii ''. '';
          textPart = body f;
          e1 = ContentEl (currentOffset s1) (length numPart) superscriptAttrs;
          s2 = s1\<lparr>content := content s1 @ numPart,
                  currentOffset := currentOffset s1 + length numPart\<rparr>;
          e2 = ContentEl (currentOffset s2) (length textPart) size10Attrs;
          s3 = s2\<lparr>content := content s2 @ textPart,
                  currentOffset := currentOffset s2 + length textPart\<rparr>
      in appendFootnotesSection_loop fs
           (s3\<lparr>elements := elements s3
                    @ [ParagraphElem (ParagraphEl defaultParagraphAttrs [e1, e2])]\<rparr>))"

definition appendFootnotesSection :: "gen_state \<Rightarrow> gen_state" where
  "appendFootnotesSection s =
     (let s1 = s\<lparr>elements := elements s @ [ParagraphElem (placeholderParagraph (currentOffset s))],
                 content := content s @ [0x0A],
                 currentOffset := currentOffset s + 1\<rparr>;
          s2 = s1\<lparr>elements := elements s1
                     @ [ParagraphElem (ParagraphEl defaultParagraphAttrs
                          [ContentEl (currentOffset s1) (length separator) size10Attrs])],
                  content := content s1 @ separator,
                  currentOffset := currentOffset s1 + length separator\<rparr>
      in appendFootnotesSection_loop (collectedFootnotes s2) s2)"

subsection \<open>processParagraph\<close>

text \<open>
  One iteration of the loop over \<open>paragraph.runs\<close>, with the local arrays
  \<open>paraContent\<close> and \<open>paraElements\<close>.  \<open>Inl\<close> is the \<open>return\<close> of the page-break
  branch, with the state the method leaves behind; \<open>Inr\<close> goes on with the next run.
\<close>

fun processParagraph_run ::
  "para \<Rightarrow> run \<Rightarrow> jsstring list \<Rightarrow> leaf list \<Rightarrow> gen_state
     \<Rightarrow> gen_state + (jsstring list \<times> leaf list \<times> gen_state)" where
  "processParagraph_run p (Text r) paraContent paraElements s =
     Inr (paraContent @ [text_str r],
          paraElements @ [ContentEl (currentOffset s) (length (text_str r)) (buildContentAttrs r)],
          s\<lparr>currentOffset := currentOffset s + length (text_str r)\<rparr>)"
| "processParagraph_run p Tab paraContent paraElements s =
     Inr (paraContent @ [[0x09]],
          paraElements @ [TabEl (currentOffset s) 1],
          s\<lparr>currentOffset := currentOffset s + 1\<rparr>)"
| "processParagraph_run p (Image imageData w h) paraContent paraElements s =
     (if truthy_str imageData
      then Inr (paraContent @ [[0xFFFC]],
                paraElements @ [ImageEl (currentOffset s) 1 (toString_opt imageData) w h],
                s\<lparr>currentOffset := currentOffset s + 1\<rparr>)
      else Inr (paraContent, paraElements, s))"
| "processParagraph_run p Break paraContent paraElements s =
     Inr (paraContent @ [[0x0A]], paraElements, s\<lparr>currentOffset := currentOffset s + 1\<rparr>)"
| "processParagraph_run p PageBreak paraContent paraElements s =
     (let s1 = s\<lparr>content := content s @ concat paraContent\<rparr>;
          s2 = (if 0 < length paraElements
                then s1\<lparr>elements := elements s1
                          @ [ParagraphElem (buildParagraphElement p paraElements)]\<rparr>
                else s1);
          s3 = (if 0 < length (collectedFootnotes s2)
                then (appendFootnotesSection s2)\<lparr>collectedFootnotes := []\<rparr>
                else s2)
      in Inl (s3\<lparr>elements := elements s3 @ [PageBreakEl]\<rparr>))"
| "processParagraph_run p (FootnoteRef footnoteNum footnoteText) paraContent paraElements s =
     Inr (paraContent @ [footnoteNum],
          paraElements @ [ContentEl (currentOffset s) (length footnoteNum) superscriptAttrs],
          s\<lparr>collectedFootnotes :=
                collectedFootnotes s @ [\<lparr>number = footnoteNum, body = footnoteText\<rparr>],
             currentOffset := currentOffset s + length footnoteNum\<rparr>)"

fun processParagraph_runs ::
  "para \<Rightarrow> run list \<Rightarrow> jsstring list \<Rightarrow> leaf list \<Rightarrow> gen_state
     \<Rightarrow> gen_state + (jsstring list \<times> leaf list \<times> gen_state)" where
  "processParagraph_runs p [] paraContent paraElements s = Inr (paraContent, paraElements, s)"
| "processParagraph_runs p (r # rs) paraContent paraElements s =
     (case processParagraph_run p r paraContent paraElements s of
        Inl s' \<Rightarrow> Inl s'
      | Inr (paraContent', paraElements', s') \<Rightarrow>
          processParagraph_runs p rs paraContent' paraElements' s')"

text \<open>What follows the loop (lines 119 to 127): the placeholder and the two appends.\<close>

definition processParagraph_finish ::
  "para \<Rightarrow> jsstring list \<Rightarrow> leaf list \<Rightarrow> gen_state \<Rightarrow> gen_state" where
  "processParagraph_finish p paraContent paraElements s =
     (let (paraContent', paraElements', s1) =
            (if length paraContent = 0
             then (paraContent @ [[0x200B]],
                   paraElements @ [ContentEl (currentOffset s) 1 defaultContentAttrs],
                   s\<lparr>currentOffset := currentOffset s + 1\<rparr>)
             else (paraContent, paraElements, s))
      in s1\<lparr>content := content s1 @ concat paraContent',
             elements := elements s1 @ [ParagraphElem (buildParagraphElement p paraElements')]\<rparr>)"

definition processParagraph :: "para \<Rightarrow> gen_state \<Rightarrow> gen_state" where
  "processParagraph p s =
     (case processParagraph_runs p (runs p) [] [] s of
        Inl s' \<Rightarrow> s'
      | Inr (paraContent, paraElements, s') \<Rightarrow>
          processParagraph_finish p paraContent paraElements s')"

subsection \<open>processTableCell and processTable\<close>

text \<open>
  One iteration of the loop over the runs of a cell paragraph (lines 317 to 348).  A
  run of type \<open>'break'\<close> or \<open>'pageBreak'\<close> matches no branch of the chain.
\<close>

fun processTableCell_run :: "run \<Rightarrow> leaf list \<Rightarrow> gen_state \<Rightarrow> leaf list \<times> gen_state" where
  "processTableCell_run (Text r) paraElements s =
     (paraElements @ [ContentEl (currentOffset s) (length (text_str r)) (buildContentAttrs r)],
      s\<lparr>content := content s @ text_str r,
         currentOffset := currentOffset s + length (text_str r)\<rparr>)"
| "processTableCell_run Tab paraElements s =
     (paraElements @ [TabEl (currentOffset s) 1],
      s\<lparr>content := content s @ [0x09], currentOffset := currentOffset s + 1\<rparr>)"
| "processTableCell_run (Image imageData w h) paraElements s =
     (if truthy_str imageData
      then (paraElements @ [ImageEl (currentOffset s) 1 (toString_opt imageData) w h],
            s\<lparr>content := content s @ [0xFFFC], currentOffset := currentOffset s + 1\<rparr>)
      else (paraElements, s))"
| "processTableCell_run (FootnoteRef footnoteNum footnoteText) paraElements s =
     (paraElements @ [ContentEl (currentOffset s) (length footnoteNum) superscriptAttrs],
      s\<lparr>collectedFootnotes :=
            collectedFootnotes s @ [\<lparr>number = footnoteNum, body = footnoteText\<rparr>],
         content := content s @ footnoteNum,
         currentOffset := currentOffset s + length footnoteNum\<rparr>)"
| "processTableCell_run Break paraElements s = (paraElements, s)"
| "processTableCell_run PageBreak paraElements s = (paraElements, s)"

fun processTableCell_runs ::
  "run list \<Rightarrow> leaf list \<Rightarrow> gen_state \<Rightarrow> leaf list \<times> gen_state" where
  "processTableCell_runs [] paraElements s = (paraElements, s)"
| "processTableCell_runs (r # rs) paraElements s =
     (case processTableCell_run r paraElements s of
        (paraElements', s') \<Rightarrow> processTableCell_runs rs paraElements' s')"

text \<open>
  The loop over \<open>cell.paragraphs\<close> (lines 313 to 364); \<open>i < cell.paragraphs.length - 1\<close>
  holds exactly when paragraphs remain.
\<close>

fun processTableCell_paragraphs ::
  "para list \<Rightarrow> para_el list \<Rightarrow> gen_state \<Rightarrow> para_el list \<times> gen_state" where
  "processTableCell_paragraphs [] cellElements s = (cellElements, s)"
| "processTableCell_paragraphs (p # ps) cellElements s =
     (let (paraElements, s1) = processTableCell_runs (runs p) [] s;
          (paraElements', s2) =
            (if length paraElements = 0
             then ([ContentEl (currentOffset s1) 1 defaultContentAttrs],
                   s1\<lparr>content := content s1 @ [0x20], currentOffset := currentOffset s1 + 1\<rparr>)
             else (paraElements, s1));
          cellElements' = cellElements @ [buildParagraphElement p paraElements'];
          s3 = (if ps \<noteq> []
                then s2\<lparr>content := content s2 @ [0x0A], currentOffset := currentOffset s2 + 1\<rparr>
                else s2)
      in processTableCell_paragraphs ps cellElements' s3)"

definition processTableCell :: "cell \<Rightarrow> gen_state \<Rightarrow> para_el list \<times> gen_state" where
  "processTableCell c s =
     (let (cellElements, s1) = processTableCell_paragraphs (paragraphs c) [] s
      in if length cellElements = 0
         then ([placeholderParagraph (currentOffset s1)],
               s1\<lparr>content := content s1 @ [0x20], currentOffset := currentOffset s1 + 1\<rparr>)
         else (cellElements, s1))"

text \<open>One iteration of the loop over \<open>row.cells\<close> (lines 278 to 296).\<close>

definition processTable_cell ::
  "cell \<Rightarrow> cell_el list \<Rightarrow> gen_state \<Rightarrow> cell_el list \<times> gen_state" where
  "processTable_cell c cellElements s =
     (if vMergeContinue c then (cellElements, s)
      else (let (cellContent, s1) = processTableCell c s
            in (cellElements @ [CellEl (cellAttrs c) cellContent], s1)))"

fun processTable_cells ::
  "cell list \<Rightarrow> cell_el list \<Rightarrow> gen_state \<Rightarrow> cell_el list \<times> gen_state" where
  "processTable_cells [] cellElements s = (cellElements, s)"
| "processTable_cells (c # cs) cellElements s =
     (case processTable_cell c cellElements s of
        (cellElements', s') \<Rightarrow> processTable_cells cs cellElements' s')"

text \<open>The loop over \<open>table.rows\<close> with its index \<open>i\<close> (lines 274 to 299).\<close>

fun processTable_rows ::
  "row list \<Rightarrow> nat \<Rightarrow> row_el list \<Rightarrow> gen_state \<Rightarrow> row_el list \<times> gen_state" where
  "processTable_rows [] i rowElements s = (rowElements, s)"
| "processTable_rows (r # rs) i rowElements s =
     (let (cellElements, s1) = processTable_cells (cells r) [] s
      in processTable_rows rs (i + 1) (rowElements @ [RowEl (i + 1) cellElements]) s1)"

definition processTable :: "table \<Rightarrow> gen_state \<Rightarrow> gen_state" where
  "processTable t s =
     (let (rowElements, s1) = processTable_rows (rows t) 0 [] s
      in s1\<lparr>elements := elements s1
               @ [TableEl (tableColumnCount t) (tableColumnSpans t) (border t) rowElements]\<rparr>)"

subsection \<open>generate\<close>

fun processElement :: "block \<Rightarrow> gen_state \<Rightarrow> gen_state" where
  "processElement (Paragraph p) s = processParagraph p s"
| "processElement (Table t) s = processTable t s"

fun processElements :: "block list \<Rightarrow> gen_state \<Rightarrow> gen_state" where
  "processElements [] s = s"
| "processElements (b # bs) s = processElements bs (processElement b s)"

definition initial_state :: gen_state where
  "initial_state = \<lparr>content = [], elements = [], currentOffset = 0, collectedFootnotes = []\<rparr>"

text \<open>The state of the generator when \<open>generateXml\<close> is called (lines 20 to 44).\<close>

definition generate_state :: "document \<Rightarrow> gen_state" where
  "generate_state d =
     (let s1 = processElements d initial_state;
          s2 = (if 0 < length (collectedFootnotes s1) then appendFootnotesSection s1 else s1)
      in if length (content s2) = 0
         then s2\<lparr>content := [0x200B],
                 elements := elements s2 @ [ParagraphElem (placeholderParagraph 0)]\<rparr>
         else s2)"

text \<open>
  \<open>generate\<close> up to the archive: the XML string that is stored as \<open>content.xml\<close>.
\<close>

definition generate :: "document \<Rightarrow> udf_xml" where
  "generate d = generateXml (generate_state d)"

section \<open>The generator without footnotes (\<open>src/js/udf-generator.js\<close>)\<close>

text \<open>
  The same class in its other file: no \<open>collectedFootnotes\<close>, no
  \<open>appendFootnotesSection\<close>, and no branch for a run of type \<open>'footnoteRef'\<close>, which
  therefore matches no branch.  Its functions carry the suffix \<open>0\<close>.
\<close>

fun processParagraph_run0 ::
  "para \<Rightarrow> run \<Rightarrow> jsstring list \<Rightarrow> leaf list \<Rightarrow> gen_state0
     \<Rightarrow> gen_state0 + (jsstring list \<times> leaf list \<times> gen_state0)" where
  "processParagraph_run0 p (Text r) paraContent paraElements s =
     Inr (paraContent @ [text_str r],
          paraElements @ [ContentEl (currentOffset s) (length (text_str r)) (buildContentAttrs r)],
          s\<lparr>currentOffset := currentOffset s + length (text_str r)\<rparr>)"
| "processParagraph_run0 p Tab paraContent paraElements s =
     Inr (paraContent @ [[0x09]],
          paraElements @ [TabEl (currentOffset s) 1],
          s\<lparr>currentOffset := currentOffset s + 1\<rparr>)"
| "processParagraph_run0 p (Image imageData w h) paraContent paraElements s =
     (if truthy_str imageData
      then Inr (paraContent @ [[0xFFFC]],
                paraElements @ [ImageEl (currentOffset s) 1 (toString_opt imageData) w h],
                s\<lparr>currentOffset := currentOffset s + 1\<rparr>)
      else Inr (paraContent, paraElements, s))"
| "processParagraph_run0 p Break paraContent paraElements s =
     Inr (paraContent @ [[0x0A]], paraElements, s\<lparr>currentOffset := currentOffset s + 1\<rparr>)"
| "processParagraph_run0 p PageBreak paraContent paraElements s =
     (let s1 = s\<lparr>content := content s @ concat paraContent\<rparr>;
          s2 = (if 0 < length paraElements
                then s1\<lparr>elements := elements s1
                          @ [ParagraphElem (buildParagraphElement p paraElements)]\<rparr>
                else s1)
      in Inl (s2\<lparr>elements := elements s2 @ [PageBreakEl]\<rparr>))"
| "processParagraph_run0 p (FootnoteRef footnoteNum footnoteText) paraContent paraElements s =
     Inr (paraContent, paraElements, s)"

fun processParagraph_runs0 ::
  "para \<Rightarrow> run list \<Rightarrow> jsstring list \<Rightarrow> leaf list \<Rightarrow> gen_state0
     \<Rightarrow> gen_state0 + (jsstring list \<times> leaf list \<times> gen_state0)" where
  "processParagraph_runs0 p [] paraContent paraElements s = Inr (paraContent, paraElements, s)"
| "processParagraph_runs0 p (r # rs) paraContent paraElements s =
     (case processParagraph_run0 p r paraContent paraElements s of
        Inl s' \<Rightarrow> Inl s'
      | Inr (paraContent', paraElements', s') \<Rightarrow>
          processParagraph_runs0 p rs paraContent' paraElements' s')"

definition processParagraph_finish0 ::
  "para \<Rightarrow> jsstring list \<Rightarrow> leaf list \<Rightarrow> gen_state0 \<Rightarrow> gen_state0" where
  "processParagraph_finish0 p paraContent paraElements s =
     (let (paraContent', paraElements', s1) =
            (if length paraContent = 0
             then (paraContent @ [[0x200B]],
                   paraElements @ [ContentEl (currentOffset s) 1 defaultContentAttrs],
                   s\<lparr>currentOffset := currentOffset s + 1\<rparr>)
             else (paraContent, paraElements, s))
      in s1\<lparr>content := content s1 @ concat paraContent',
             elements := elements s1 @ [ParagraphElem (buildParagraphElement p paraElements')]\<rparr>)"

definition processParagraph0 :: "para \<Rightarrow> gen_state0 \<Rightarrow> gen_state0" where
  "processParagraph0 p s =
     (case processParagraph_runs0 p (runs p) [] [] s of
        Inl s' \<Rightarrow> s'
      | Inr (paraContent, paraElements, s') \<Rightarrow>
          processParagraph_finish0 p paraContent paraElements s')"

fun processTableCell_run0 :: "run \<Rightarrow> leaf list \<Rightarrow> gen_state0 \<Rightarrow> leaf list \<times> gen_state0" where
  "processTableCell_run0 (Text r) paraElements s =
     (paraElements @ [ContentEl (currentOffset s) (length (text_str r)) (buildContentAttrs r)],
      s\<lparr>content := content s @ text_str r,
         currentOffset := currentOffset s + length (text_str r)\<rparr>)"
| "processTableCell_run0 Tab paraElements s =
     (paraElements @ [TabEl (currentOffset s) 1],
      s\<lparr>content := content s @ [0x09], currentOffset := currentOffset s + 1\<rparr>)"
| "processTableCell_run0 (Image imageData w h) paraElements s =
     (if truthy_str imageData
      then (paraElements @ [ImageEl (currentOffset s) 1 (toString_opt imageData) w h],
            s\<lparr>content := content s @ [0xFFFC], currentOffset := currentOffset s + 1\<rparr>)
      else (paraElements, s))"
| "processTableCell_run0 Break paraElements s = (paraElements, s)"
| "processTableCell_run0 PageBreak paraElements s = (paraElements, s)"
| "processTableCell_run0 (FootnoteRef footnoteNum footnoteText) paraElements s = (paraElements, s)"

fun processTableCell_runs0 ::
  "run list \<Rightarrow> leaf list \<Rightarrow> gen_state0 \<Rightarrow> leaf list \<times> gen_state0" where
  "processTableCell_runs0 [] paraElements s = (paraElements, s)"
| "processTableCell_runs0 (r # rs) paraElements s =
     (case processTableCell_run0 r paraElements s of
        (paraElements', s') \<Rightarrow> processTableCell_runs0 rs paraElements' s')"

fun processTableCell_paragraphs0 ::
  "para list \<Rightarrow> para_el list \<Rightarrow> gen_state0 \<Rightarrow> para_el list \<times> gen_state0" where
  "processTableCell_paragraphs0 [] cellElements s = (cellElements, s)"
| "processTableCell_paragraphs0 (p # ps) cellElements s =
     (let (paraElements, s1) = processTableCell_runs0 (runs p) [] s;
          (paraElements', s2) =
            (if length paraElements = 0
             then ([ContentEl (currentOffset s1) 1 defaultContentAttrs],
                   s1\<lparr>content := content s1 @ [0x20], currentOffset := currentOffset s1 + 1\<rparr>)
             else (paraElements, s1));
          cellElements' = cellElements @ [buildParagraphElement p paraElements'];
          s3 = (if ps \<noteq> []
                then s2\<lparr>content := content s2 @ [0x0A], currentOffset := currentOffset s2 + 1\<rparr>
                else s2)
      in processTableCell_paragraphs0 ps cellElements' s3)"

definition processTableCell0 :: "cell \<Rightarrow> gen_state0 \<Rightarrow> para_el list \<times> gen_state0" where
  "processTableCell0 c s =
     (let (cellElements, s1) = processTableCell_paragraphs0 (paragraphs c) [] s
      in if length cellElements = 0
         then ([placeholderParagraph (currentOffset s1)],
               s1\<lparr>content := content s1 @ [0x20], currentOffset := currentOffset s1 + 1\<rparr>)
         else (cellElements, s1))"

definition processTable_cell0 ::
  "cell \<Rightarrow> cell_el list \<Rightarrow> gen_state0 \<Rightarrow> cell_el list \<times> gen_state0" where
  "processTable_cell0 c cellElements s =
     (if vMergeContinue c then (cellElements, s)
      else (let (cellContent, s1) = processTableCell0 c s
            in (cellElements @ [CellEl (cellAttrs c) cellContent], s1)))"

fun processTable_cells0 ::
  "cell list \<Rightarrow> cell_el list \<Rightarrow> gen_state0 \<Rightarrow> cell_el list \<times> gen_state0" where
  "processTable_cells0 [] cellElements s = (cellElements, s)"
| "processTable_cells0 (c # cs) cellElements s =
     (case processTable_cell0 c cellElements s of
        (cellElements', s') \<Rightarrow> processTable_cells0 cs cellElements' s')"

fun processTable_rows0 ::
  "row list \<Rightarrow> nat \<Rightarrow> row_el list \<Rightarrow> gen_state0 \<Rightarrow> row_el list \<times> gen_state0" where
  "processTable_rows0 [] i rowElements s = (rowElements, s)"
| "processTable_rows0 (r # rs) i rowElements s =
     (let (cellElements, s1) = processTable_cells0 (cells r) [] s
      in processTable_rows0 rs (i + 1) (rowElements @ [RowEl (i + 1) cellElements]) s1)"

definition processTable0 :: "table \<Rightarrow> gen_state0 \<Rightarrow> gen_state0" where
  "processTable0 t s =
     (let (rowElements, s1) = processTable_rows0 (rows t) 0 [] s
      in s1\<lparr>elements := elements s1
               @ [TableEl (tableColumnCount t) (tableColumnSpans t) (border t) rowElements]\<rparr>)"

fun processElement0 :: "block \<Rightarrow> gen_state0 \<Rightarrow> gen_state0" where
  "processElement0 (Paragraph p) s = processParagraph0 p s"
| "processElement0 (Table t) s = processTable0 t s"

fun processElements0 :: "block list \<Rightarrow> gen_state0 \<Rightarrow> gen_state0" where
  "processElements0 [] s = s"
| "processElements0 (b # bs) s = processElements0 bs (processElement0 b s)"

definition initial_state0 :: gen_state0 where
  "initial_state0 = \<lparr>content = [], elements = [], currentOffset = 0\<rparr>"

definition generate_state0 :: "document \<Rightarrow> gen_state0" where
  "generate_state0 d =
     (let s1 = processElements0 d initial_state0
      in if length (content s1) = 0
         then s1\<lparr>content := [0x200B],
                 elements := elements s1 @ [ParagraphElem (placeholderParagraph 0)]\<rparr>
         else s1)"

definition generate0 :: "document \<Rightarrow> udf_xml" where
  "generate0 d = generateXml (generate_state0 d)"

section \<open>The parser (\<open>src/js/docx-parser.js\<close>)\<close>

text \<open>
  \<open>DocxParser.parse\<close> is one \<open>try\<close> block whose \<open>catch\<close> throws
  \<open>new Error('Failed to parse DOCX file. Make sure it is a valid Word document.')\<close>.
  The archive library and the XML parser are outside the repository, so the steps of the
  \<open>try\<close> block are parameters: loading the archive (\<open>JSZip.loadAsync\<close>), and reading
  and extracting the document from the loaded archive.  Each step returns its value or
  the exception it throws.
\<close>

datatype js_error = Error jsstring

definition parse_failure_message :: jsstring where
  "parse_failure_message =
     ascii ''Failed to parse DOCX file. Make sure it is a valid Word document.''"

definition parse ::
  "('file \<Rightarrow> 'exn + 'zip) \<Rightarrow> ('zip \<Rightarrow> 'exn + 'doc) \<Rightarrow> 'file \<Rightarrow> js_error + 'doc" where
  "parse loadAsync extractDocument file =
     (case loadAsync file of
        Inl exn \<Rightarrow> Inl (Error parse_failure_message)
      | Inr archive \<Rightarrow>
          (case extractDocument archive of
             Inl exn \<Rightarrow> Inl (Error parse_failure_message)
           | Inr doc \<Rightarrow> Inr doc))"

text \<open>
  The vertical-merge flags \<open>parseTableCell\<close> sets (lines 417 to 425).  The argument is
  \<open>None\<close> when the cell properties hold no \<open>vMerge\<close> element, and otherwise the value
  of its \<open>w:val\<close> attribute (\<open>None\<close> when \<open>getAttribute\<close> returns \<open>null\<close>).  The
  result is the pair \<open>(vMergeContinue, vMergeStart)\<close>; an unset flag is falsy.
\<close>

definition parseTableCell_vMerge :: "jsstring option option \<Rightarrow> bool \<times> bool" where
  "parseTableCell_vMerge vMerge =
     (case vMerge of
        None \<Rightarrow> (False, False)
      | Some val \<Rightarrow>
          if \<not> truthy_str val \<or> val = Some (ascii ''continue'') then (True, False)
          else if val = Some (ascii ''restart'') then (False, True)
          else (False, False))"

section \<open>Notions used to state the properties\<close>

subsection \<open>Hexadecimal notation of a byte\<close>

definition hexDigit :: "bool \<Rightarrow> nat \<Rightarrow> jschar" where
  "hexDigit upper d =
     (if d < 10 then of_nat (48 + d) else if upper then of_nat (55 + d) else of_nat (87 + d))"

definition hexByte :: "bool \<Rightarrow> nat \<Rightarrow> jsstring" where
  "hexByte upper n = [hexDigit upper (n div 16), hexDigit upper (n mod 16)]"

subsection \<open>Runs that are breaks\<close>

fun isBreakRun :: "run \<Rightarrow> bool" where
  "isBreakRun Break = True"
| "isBreakRun PageBreak = True"
| "isBreakRun _ = False"

subsection \<open>Example inputs\<close>

definition plainText :: "string \<Rightarrow> run" where
  "plainText cs =
     Text \<lparr>text_str = ascii cs, bold = False, italic = False, underline = False,
           strike = False, fontFamily = Some (ascii ''Times New Roman''),
           fontSize = Some 12, color = None\<rparr>"

definition plainParagraph :: "run list \<Rightarrow> para" where
  "plainParagraph rs =
     \<lparr>alignment = ascii ''left'', leftIndent = None, rightIndent = None,
      firstLineIndent = None, numbering = None, runs = rs\<rparr>"

definition plainCell :: "bool \<Rightarrow> para list \<Rightarrow> cell" where
  "plainCell continuation ps =
     \<lparr>paragraphs = ps, colspan = Some 1, vMergeContinue = continuation,
      vMergeStart = (\<not> continuation), vAlign = Some (ascii ''top''), bgColor = None\<rparr>"

definition plainTable :: "cell list list \<Rightarrow> table" where
  "plainTable css =
     \<lparr>rows = map (\<lambda>cs. \<lparr>cells = cs\<rparr>) css, columnWidths = [], border = ascii ''borderCell''\<rparr>"

text \<open>Two failing runs of the parser: an unreadable archive, and a readable archive
  whose document cannot be extracted.\<close>

datatype parse_exn = ArchiveUnreadable | ExtractionFailed

definition load_unreadable :: "unit \<Rightarrow> parse_exn + unit" where
  "load_unreadable f = Inl ArchiveUnreadable"

definition load_ok :: "unit \<Rightarrow> parse_exn + unit" where
  "load_ok f = Inr ()"

definition extract_fails :: "unit \<Rightarrow> parse_exn + document" where
  "extract_fails z = Inl ExtractionFailed"

definition extract_empty :: "unit \<Rightarrow> parse_exn + document" where
  "extract_empty z = Inr []"

subsection \<open>The footnote section in the specification's words\<close>

text \<open>
  A flush writes a newline (the blank line), the rule of twenty box-drawing characters
  U+2500, and for every footnote a newline, the label followed by a full stop and a
  space, and the body.  It emits a paragraph for the blank line (one default content
  element on the newline), a paragraph for the rule (size 10), and a paragraph for each
  footnote holding the prefix as a superscript content element and the body as a content
  element with no weight attribute.  Every attribute is written out here; none is taken
  from the constants of the generator.
\<close>

definition footnoteEntryText :: "footnote \<Rightarrow> jsstring" where
  "footnoteEntryText f = 0x0A # number f @ ascii ''. '' @ body f"

definition footnoteSectionText :: "footnote list \<Rightarrow> jsstring" where
  "footnoteSectionText fs = 0x0A # replicate 20 0x2500 @ concat (map footnoteEntryText fs)"

fun footnoteParagraphs :: "nat \<Rightarrow> footnote list \<Rightarrow> element list" where
  "footnoteParagraphs off [] = []"
| "footnoteParagraphs off (f # fs) =
     ParagraphElem (ParagraphEl
       [(''Alignment'', AStr (ascii ''0'')), (''LeftIndent'', AStr (ascii ''0.0'')),
        (''RightIndent'', AStr (ascii ''0.0''))]
       [ContentEl (off + 1) (length (number f) + 2)
          [(''family'', AStr (ascii ''Times New Roman'')), (''size'', ANum (Some 10)),
           (''superscript'', AStr (ascii ''true''))],
        ContentEl (off + 1 + (length (number f) + 2)) (length (body f))
          [(''family'', AStr (ascii ''Times New Roman'')), (''size'', ANum (Some 10))]])
     # footnoteParagraphs (off + length (footnoteEntryText f)) fs"

definition footnoteSectionElements :: "nat \<Rightarrow> footnote list \<Rightarrow> element list" where
  "footnoteSectionElements off fs =
     [ParagraphElem (ParagraphEl
        [(''Alignment'', AStr (ascii ''0'')), (''LeftIndent'', AStr (ascii ''0.0'')),
         (''RightIndent'', AStr (ascii ''0.0''))]
        [ContentEl off 1
           [(''family'', AStr (ascii ''Times New Roman'')), (''size'', ANum (Some 12))]]),
      ParagraphElem (ParagraphEl
        [(''Alignment'', AStr (ascii ''0'')), (''LeftIndent'', AStr (ascii ''0.0'')),
         (''RightIndent'', AStr (ascii ''0.0''))]
        [ContentEl (off + 1) 20
           [(''family'', AStr (ascii ''Times New Roman'')), (''size'', ANum (Some 10))]])]
     @ footnoteParagraphs (off + 21) fs"

subsection \<open>The runs of a body paragraph in the specification's words\<close>

text \<open>
  What the runs of a body paragraph append and emit, read from the cursor \<open>off\<close> up to
  the first page break: a text run its text and a content element, a tab run a tab
  character and a tab element, an image run with data the object replacement character
  and an image element, a line break a newline and no element, a footnote reference its
  label and a superscript content element.  An image run without data gives nothing.
\<close>

fun para_attrs :: "para_el \<Rightarrow> attrs" where
  "para_attrs (ParagraphEl a ls) = a"

fun runPieces :: "run list \<Rightarrow> jsstring list" where
  "runPieces [] = []"
| "runPieces (Text r # rs) = text_str r # runPieces rs"
| "runPieces (Tab # rs) = [0x09] # runPieces rs"
| "runPieces (Image imageData w h # rs) =
     (if truthy_str imageData then [0xFFFC] # runPieces rs else runPieces rs)"
| "runPieces (Break # rs) = [0x0A] # runPieces rs"
| "runPieces (PageBreak # rs) = []"
| "runPieces (FootnoteRef footnoteNum footnoteText # rs) = footnoteNum # runPieces rs"

fun runLeaves :: "nat \<Rightarrow> run list \<Rightarrow> leaf list" where
  "runLeaves off [] = []"
| "runLeaves off (Text r # rs) =
     ContentEl off (length (text_str r)) (buildContentAttrs r)
     # runLeaves (off + length (text_str r)) rs"
| "runLeaves off (Tab # rs) = TabEl off 1 # runLeaves (off + 1) rs"
| "runLeaves off (Image imageData w h # rs) =
     (if truthy_str imageData
      then ImageEl off 1 (toString_opt imageData) w h # runLeaves (off + 1) rs
      else runLeaves off rs)"
| "runLeaves off (Break # rs) = runLeaves (off + 1) rs"
| "runLeaves off (PageBreak # rs) = []"
| "runLeaves off (FootnoteRef footnoteNum footnoteText # rs) =
     ContentEl off (length footnoteNum)
       [(''family'', AStr (ascii ''Times New Roman'')), (''size'', ANum (Some 10)),
        (''superscript'', AStr (ascii ''true''))]
     # runLeaves (off + length footnoteNum) rs"

text \<open>The footnotes referenced by a list of runs, in order.\<close>

fun runFootnotes :: "run list \<Rightarrow> footnote list" where
  "runFootnotes [] = []"
| "runFootnotes (FootnoteRef footnoteNum footnoteText # rs) =
     \<lparr>number = footnoteNum, body = footnoteText\<rparr> # runFootnotes rs"
| "runFootnotes (r # rs) = runFootnotes rs"

definition cellFootnotes :: "cell \<Rightarrow> footnote list" where
  "cellFootnotes c = concat (map (\<lambda>p. runFootnotes (runs p)) (paragraphs c))"

definition tableFootnotes :: "table \<Rightarrow> footnote list" where
  "tableFootnotes t =
     concat (map cellFootnotes (filter (\<lambda>c. \<not> vMergeContinue c) (concat (map cells (rows t)))))"

text \<open>
  The footnotes pending after a block: a body paragraph with a page break leaves none
  (they were flushed at the break, and the runs after the break are not read); any other
  block adds its references.
\<close>

fun pendingAfterBlock :: "footnote list \<Rightarrow> block \<Rightarrow> footnote list" where
  "pendingAfterBlock fs (Paragraph p) =
     (if PageBreak \<in> set (runs p) then [] else fs @ runFootnotes (runs p))"
| "pendingAfterBlock fs (Table t) = fs @ tableFootnotes t"

definition pendingFootnotes :: "document \<Rightarrow> footnote list" where
  "pendingFootnotes d = foldl pendingAfterBlock [] d"

subsection \<open>Offsets of the emitted elements\<close>

text \<open>
  The content, tab and image elements of an element list in emission order (the order
  of the XML), and their \<open>(startOffset, length)\<close> pairs.
\<close>

fun leaf_span :: "leaf \<Rightarrow> nat \<times> nat" where
  "leaf_span (ContentEl off len a) = (off, len)"
| "leaf_span (TabEl off len) = (off, len)"
| "leaf_span (ImageEl off len imageData w h) = (off, len)"

fun para_leaves :: "para_el \<Rightarrow> leaf list" where
  "para_leaves (ParagraphEl a ls) = ls"

fun cell_leaves :: "cell_el \<Rightarrow> leaf list" where
  "cell_leaves (CellEl a ps) = concat (map para_leaves ps)"

fun row_leaves :: "row_el \<Rightarrow> leaf list" where
  "row_leaves (RowEl n cs) = concat (map cell_leaves cs)"

fun element_leaves :: "element \<Rightarrow> leaf list" where
  "element_leaves (ParagraphElem p) = para_leaves p"
| "element_leaves PageBreakEl = []"
| "element_leaves (TableEl n spans_attr border_attr rs) = concat (map row_leaves rs)"

definition spans :: "element list \<Rightarrow> (nat \<times> nat) list" where
  "spans es = map leaf_span (concat (map element_leaves es))"

text \<open>
  \<open>partitions xs a b\<close>: the pairs \<open>xs\<close>, in order, cut the range from \<open>a\<close> to \<open>b\<close>
  into consecutive pieces, with no gap and no overlap.
\<close>

fun partitions :: "(nat \<times> nat) list \<Rightarrow> nat \<Rightarrow> nat \<Rightarrow> bool" where
  "partitions [] a b = (a = b)"
| "partitions ((off, len) # xs) a b = (off = a \<and> partitions xs (a + len) b)"

text \<open>
  \<open>ordered_within xs a b\<close>: the pairs \<open>xs\<close>, in order, lie in the range from \<open>a\<close> to
  \<open>b\<close>, each starting at or after the end of the one before (no overlap, gaps allowed).
\<close>

fun ordered_within :: "(nat \<times> nat) list \<Rightarrow> nat \<Rightarrow> nat \<Rightarrow> bool" where
  "ordered_within [] a b = (a \<le> b)"
| "ordered_within ((off, len) # xs) a b = (a \<le> off \<and> ordered_within xs (off + len) b)"

text \<open>
  \<open>tiles G xs a buf\<close>, for a buffer piece \<open>buf\<close> whose first character has offset
  \<open>a\<close>: the pairs \<open>xs\<close>, in order, lie in the piece without overlap, and every character
  of the piece outside all pairs belongs to \<open>G\<close>.
\<close>

fun tiles :: "jschar set \<Rightarrow> (nat \<times> nat) list \<Rightarrow> nat \<Rightarrow> jsstring \<Rightarrow> bool" where
  "tiles G [] a buf = (set buf \<subseteq> G)"
| "tiles G ((off, len) # xs) a buf =
     (a \<le> off \<and> off - a + len \<le> length buf \<and> set (take (off - a) buf) \<subseteq> G
      \<and> tiles G xs (off + len) (drop (off - a + len) buf))"

text \<open>
  Documents in which no character is appended without an element: no line break in a
  body paragraph, no footnote reference, and at most one paragraph in every rendered
  cell.
\<close>

definition gapfree_cell :: "cell \<Rightarrow> bool" where
  "gapfree_cell c =
     (vMergeContinue c \<or> (length (paragraphs c) \<le> 1 \<and> cellFootnotes c = []))"

fun gapfree_block :: "block \<Rightarrow> bool" where
  "gapfree_block (Paragraph p) = (Break \<notin> set (runs p) \<and> runFootnotes (runs p) = [])"
| "gapfree_block (Table t) = list_all gapfree_cell (concat (map cells (rows t)))"

definition gapfree :: "document \<Rightarrow> bool" where
  "gapfree d = list_all gapfree_block d"

text \<open>
  The invariant of the generator state between blocks: the cursor is the length of the
  buffer, the emitted pairs tile the buffer, and footnotes are pending only when a newline
  may stay uncovered.
\<close>

definition layout_inv :: "jschar set \<Rightarrow> gen_state \<Rightarrow> bool" where
  "layout_inv G s =
     (currentOffset s = length (content s)
      \<and> tiles G (spans (elements s)) 0 (content s)
      \<and> (0x0A \<in> G \<or> collectedFootnotes s = []))"

text \<open>The pairs of the elements collected in the local arrays of the table loops.\<close>

definition leaf_spans :: "leaf list \<Rightarrow> (nat \<times> nat) list" where
  "leaf_spans ls = map leaf_span ls"

definition para_spans :: "para_el list \<Rightarrow> (nat \<times> nat) list" where
  "para_spans ps = map leaf_span (concat (map para_leaves ps))"

definition cell_spans :: "cell_el list \<Rightarrow> (nat \<times> nat) list" where
  "cell_spans cs = map leaf_span (concat (map cell_leaves cs))"

definition row_spans :: "row_el list \<Rightarrow> (nat \<times> nat) list" where
  "row_spans rs = map leaf_span (concat (map row_leaves rs))"

subsection \<open>Comparing the two generators\<close>

text \<open>The state of the generator with footnotes, seen as a state of the other one.\<close>

definition without_footnotes :: "gen_state \<Rightarrow> gen_state0" where
  "without_footnotes s =
     \<lparr>content = content s, elements = elements s, currentOffset = currentOffset s\<rparr>"

text \<open>Documents with no footnote-reference run, in any paragraph of the body or of a cell.\<close>

definition noFootnoteRefs_para :: "para \<Rightarrow> bool" where
  "noFootnoteRefs_para p = (runFootnotes (runs p) = [])"

definition noFootnoteRefs_cell :: "cell \<Rightarrow> bool" where
  "noFootnoteRefs_cell c = list_all noFootnoteRefs_para (paragraphs c)"

fun noFootnoteRefs_block :: "block \<Rightarrow> bool" where
  "noFootnoteRefs_block (Paragraph p) = noFootnoteRefs_para p"
| "noFootnoteRefs_block (Table t) = list_all noFootnoteRefs_cell (concat (map cells (rows t)))"

definition noFootnoteRefs :: "document \<Rightarrow> bool" where
  "noFootnoteRefs d = list_all noFootnoteRefs_block d"

section \<open>Properties of the colour conversion\<close>

lemma unat_hexDigit:
  "d < 16 \<Longrightarrow> unat (hexDigit u d) = (if d < 10 then 48 + d else if u then 55 + d else 87 + d)"
  by (simp add: hexDigit_def unat_of_nat del: of_nat_add)

lemma hexDigit_neq:
  assumes "d < 16" and "unat c \<notin> {48..57} \<union> {65..70} \<union> {97..102}"
  shows "hexDigit u d \<noteq> c"
proof
  assume "hexDigit u d = c"
  then have "unat (hexDigit u d) = unat c" by simp
  with assms show False by (auto simp add: unat_hexDigit split: if_splits)
qed

lemma hexDigit_facts:
  assumes "d < 16"
  shows "radixDigit 16 (hexDigit u d) = Some d"
    and "\<not> isWhiteSpace (hexDigit u d)"
    and "hexDigit u d \<noteq> 0x2B" and "hexDigit u d \<noteq> 0x2D"
    and "hexDigit u d \<noteq> 0x78" and "hexDigit u d \<noteq> 0x58"
proof -
  show "radixDigit 16 (hexDigit u d) = Some d"
    using assms by (simp add: radixDigit_def digitValue_def unat_hexDigit)
  show "\<not> isWhiteSpace (hexDigit u d)"
    using assms by (simp add: isWhiteSpace_def unat_hexDigit)
  show "hexDigit u d \<noteq> 0x2B" "hexDigit u d \<noteq> 0x2D"
    "hexDigit u d \<noteq> 0x78" "hexDigit u d \<noteq> 0x58"
    using assms by (simp_all add: hexDigit_neq)
qed

lemma parseInt_hexByte:
  assumes "n < 256"
  shows "parseInt (hexByte u n) 16 = Some (int n)"
proof -
  have hi: "n div 16 < 16" and lo: "n mod 16 < 16" using assms by auto
  show ?thesis
    by (simp add: parseInt_def hexByte_def hexDigit_facts [OF hi] hexDigit_facts [OF lo])
qed

lemma hexToRgbInt_parts:
  assumes "take 2 h = hexByte u r" "take 2 (drop 2 h) = hexByte u g"
    and "take 2 (drop 4 h) = hexByte u b"
    and "r < 256" "g < 256" "b < 256"
  shows "hexToRgbInt (Some (0x23 # h)) =
    sint (push_bit 24 (255 :: 32 word) OR push_bit 16 (of_nat r) OR push_bit 8 (of_nat g)
          OR of_nat b)"
  using assms by (simp add: hexToRgbInt_def parseInt_hexByte toInt32_def del: push_bit_numeral)

lemma hexToRgbInt_red: "hexToRgbInt (Some (ascii ''#FF0000'')) = - 65536"
proof -
  have "hexToRgbInt (Some (0x23 # hexByte True 255 @ hexByte True 0 @ hexByte True 0)) =
    sint (push_bit 24 (255 :: 32 word) OR push_bit 16 (of_nat 255) OR push_bit 8 (of_nat 0)
          OR of_nat 0)"
    by (rule hexToRgbInt_parts) (simp_all add: hexByte_def)
  moreover have "ascii ''#FF0000'' = 0x23 # hexByte True 255 @ hexByte True 0 @ hexByte True 0"
    by (simp add: ascii_def hexByte_def hexDigit_def)
  ultimately show ?thesis by simp
qed

text \<open>
  C5.  \<open>hexToRgbInt\<close> maps \<open>#FF0000\<close> to \<open>-65536\<close> and an absent colour to
  \<open>-16777216\<close>; for a colour written as \<open>#\<close> and three bytes in hexadecimal (upper or
  lower case) the result is \<open>(0xFF<<24)|(R<<16)|(G<<8)|B\<close> read as a signed 32-bit
  integer.
\<close>

theorem hexToRgbInt_argb:
  "hexToRgbInt (Some (ascii ''#FF0000'')) = - 65536
   \<and> hexToRgbInt None = - 16777216
   \<and> (\<forall>r<256. \<forall>g<256. \<forall>b<256.
        hexToRgbInt (Some (0x23 # hexByte u r @ hexByte u g @ hexByte u b)) =
        sint (push_bit 24 (0xFF :: 32 word) OR push_bit 16 (of_nat r) OR push_bit 8 (of_nat g)
              OR of_nat b))"
proof (intro conjI allI impI)
  show "hexToRgbInt (Some (ascii ''#FF0000'')) = - 65536"
    by (rule hexToRgbInt_red)
  show "hexToRgbInt None = - 16777216"
    by (simp add: hexToRgbInt_def)
next
  fix r g b :: nat
  assume "r < 256" "g < 256" "b < 256"
  then show "hexToRgbInt (Some (0x23 # hexByte u r @ hexByte u g @ hexByte u b)) =
        sint (push_bit 24 (0xFF :: 32 word) OR push_bit 16 (of_nat r) OR push_bit 8 (of_nat g)
              OR of_nat b)"
    by (intro hexToRgbInt_parts) (simp_all add: hexByte_def)
qed

theorem hexToRgbInt_argb_witness:
  "(0x12 :: nat) < 256 \<and> (0xAB :: nat) < 256 \<and> (0xFF :: nat) < 256
   \<and> hexToRgbInt (Some (0x23 # hexByte False 0x12 @ hexByte False 0xAB @ hexByte False 0xFF))
       = - 15553537"
proof -
  have "hexToRgbInt (Some (0x23 # hexByte False 0x12 @ hexByte False 0xAB @ hexByte False 0xFF)) =
        sint (push_bit 24 (0xFF :: 32 word) OR push_bit 16 (of_nat 0x12) OR push_bit 8 (of_nat 0xAB)
              OR of_nat 0xFF)"
    using hexToRgbInt_argb [of False] by simp
  then show ?thesis by simp
qed

section \<open>The parser's errors\<close>

text \<open>
  C2 (as amended).  Whatever fails inside \<open>parse\<close>, the caller receives the same
  \<open>Error\<close> with the same fixed message, and the exception that caused it is not part of
  it; a failure is an \<open>Inl\<close> and so differs from every successful result, which is the
  extracted document.
\<close>

theorem parse_single_error_kind:
  "(case parse loadAsync extractDocument docx of
      Inl e \<Rightarrow>
        e = Error parse_failure_message
        \<and> (isl (loadAsync docx) \<or> (\<exists>archive. loadAsync docx = Inr archive \<and> isl (extractDocument archive)))
    | Inr doc \<Rightarrow> \<exists>archive. loadAsync docx = Inr archive \<and> extractDocument archive = Inr doc)"
  by (auto simp add: parse_def split: sum.splits)

theorem parse_single_error_kind_witness:
  "parse load_unreadable extract_empty () = Inl (Error parse_failure_message)
   \<and> parse load_ok extract_empty () = Inr []"
  using parse_single_error_kind [where loadAsync = load_unreadable and extractDocument = extract_empty and docx = "()"]
    parse_single_error_kind [where loadAsync = load_ok and extractDocument = extract_empty and docx = "()"]
  by (auto simp add: load_unreadable_def load_ok_def extract_empty_def split: sum.splits)

text \<open>
  The claim as stated fails: an unreadable archive and a failed extraction raise equal
  errors, so the two causes cannot be told apart.
\<close>

theorem parse_error_kinds_counterexample:
  "load_unreadable () = Inl ArchiveUnreadable
   \<and> load_ok () = Inr () \<and> extract_fails () = Inl ExtractionFailed
   \<and> ArchiveUnreadable \<noteq> ExtractionFailed
   \<and> parse load_unreadable extract_empty () = parse load_ok extract_fails ()"
  by (simp add: parse_def load_unreadable_def load_ok_def extract_fails_def extract_empty_def)

section \<open>The empty document\<close>

text \<open>
  C6.  A document without block elements gives the buffer of one zero-width space
  (U+200B) and the element list of one paragraph holding one content element at offset 0
  of length 1 with the default family and size; and the buffer of every document is
  non-empty.
\<close>

theorem generate_empty_document:
  "content (generate_state []) = [0x200B]
   \<and> elements (generate_state []) =
       [ParagraphElem (ParagraphEl
          [(''Alignment'', AStr (ascii ''0'')), (''LeftIndent'', AStr (ascii ''0.0'')),
           (''RightIndent'', AStr (ascii ''0.0''))]
          [ContentEl 0 1 [(''family'', AStr (ascii ''Times New Roman'')), (''size'', ANum (Some 12))]])]
   \<and> generate [] = UdfXml (content (generate_state [])) (elements (generate_state []))
   \<and> content (generate_state d) \<noteq> []"
  by (simp add: generate_state_def generate_def generateXml_def initial_state_def Let_def
      placeholderParagraph_def defaultParagraphAttrs_def defaultContentAttrs_def
      timesNewRoman_def)

section \<open>Table cells\<close>

lemma processTable_cells_filter:
  "processTable_cells cs cellElements s =
   processTable_cells (filter (\<lambda>c. \<not> vMergeContinue c) cs) cellElements s"
  by (induction cs arbitrary: cellElements s) (auto simp add: processTable_cell_def split: prod.splits)

text \<open>
  C7.  In the loop over the cells of a row a continuation cell changes neither the cell
  elements collected so far nor the state (buffer, cursor, element list, footnotes); a
  cell that is not a continuation is rendered by \<open>processTableCell\<close> and appended as one
  cell element.  So a row renders as the row without its continuation cells.  The parser
  marks a cell as continuation when \<open>vMerge\<close> has no value or the value \<open>continue\<close>,
  and a cell with \<open>restart\<close> is not a continuation.
\<close>

theorem continuation_cell_skipped:
  "(vMergeContinue c \<longrightarrow> processTable_cell c cellElements s = (cellElements, s))
   \<and> (\<not> vMergeContinue c \<longrightarrow>
        processTable_cell c cellElements s =
          (cellElements @ [CellEl (cellAttrs c) (fst (processTableCell c s))],
           snd (processTableCell c s)))
   \<and> processTable_cells cs cellElements s =
       processTable_cells (filter (\<lambda>c. \<not> vMergeContinue c) cs) cellElements s
   \<and> fst (parseTableCell_vMerge (Some None))
   \<and> fst (parseTableCell_vMerge (Some (Some (ascii ''continue''))))
   \<and> \<not> fst (parseTableCell_vMerge (Some (Some (ascii ''restart''))))"
proof (intro conjI impI)
  show "processTable_cells cs cellElements s =
       processTable_cells (filter (\<lambda>c. \<not> vMergeContinue c) cs) cellElements s"
    by (rule processTable_cells_filter)
qed (simp_all add: processTable_cell_def parseTableCell_vMerge_def truthy_str_def ascii_def
    split: prod.splits)

theorem continuation_cell_skipped_witness:
  "vMergeContinue (plainCell True [plainParagraph [plainText ''x'']])
   \<and> processTable_cell (plainCell True [plainParagraph [plainText ''x'']]) [] initial_state
       = ([], initial_state)
   \<and> \<not> vMergeContinue (plainCell False [plainParagraph [plainText ''x'']])
   \<and> content (snd (processTable_cell (plainCell False [plainParagraph [plainText ''x'']]) []
        initial_state)) = ascii ''x''
   \<and> currentOffset (snd (processTable_cell (plainCell False [plainParagraph [plainText ''x'']]) []
        initial_state)) = 1"
proof -
  have c: "vMergeContinue (plainCell True [plainParagraph [plainText ''x'']])"
    and n: "\<not> vMergeContinue (plainCell False [plainParagraph [plainText ''x'']])"
    by (simp_all add: plainCell_def)
  have "processTable_cell (plainCell True [plainParagraph [plainText ''x'']]) [] initial_state
       = ([], initial_state)"
    using continuation_cell_skipped [of "plainCell True [plainParagraph [plainText ''x'']]"
        "[]" initial_state] c by simp
  moreover have "snd (processTable_cell (plainCell False [plainParagraph [plainText ''x'']]) []
        initial_state) = snd (processTableCell (plainCell False [plainParagraph [plainText ''x'']])
        initial_state)"
    using continuation_cell_skipped [of "plainCell False [plainParagraph [plainText ''x'']]"
        "[]" initial_state] n by simp
  ultimately show ?thesis
    using c n
    by (simp add: processTableCell_def plainCell_def plainParagraph_def plainText_def
        initial_state_def ascii_def Let_def)
qed

section \<open>Breaks in table cells\<close>

lemma processTableCell_runs_filter:
  "processTableCell_runs rs paraElements s =
   processTableCell_runs (filter (\<lambda>r. \<not> isBreakRun r) rs) paraElements s"
proof (induction rs arbitrary: paraElements s)
  case Nil
  show ?case by simp
next
  case (Cons r rs)
  then show ?case by (cases r) (simp_all split: prod.splits)
qed

text \<open>
  C8.  Inside a cell paragraph a line-break run and a page-break run leave the
  paragraph's elements and the whole state as they are (nothing appended, cursor not
  advanced, no element, no footnote flush), so the runs of a cell paragraph render as the
  runs without the breaks.  In a body paragraph the line-break run appends a newline and
  advances the cursor by one, and the page-break run returns from the paragraph with the
  page-break marker as the last element.
\<close>

theorem cell_break_runs_dropped:
  "processTableCell_run Break paraElements s = (paraElements, s)
   \<and> processTableCell_run PageBreak paraElements s = (paraElements, s)
   \<and> processTableCell_runs rs paraElements s =
       processTableCell_runs (filter (\<lambda>r. \<not> isBreakRun r) rs) paraElements s
   \<and> processParagraph_run p Break paraContent paraElements s =
       Inr (paraContent @ [[0x0A]], paraElements, s\<lparr>currentOffset := currentOffset s + 1\<rparr>)
   \<and> (\<exists>s'. processParagraph_run p PageBreak paraContent paraElements s = Inl s'
            \<and> elements s' \<noteq> [] \<and> last (elements s') = PageBreakEl)"
proof (intro conjI)
  show "processTableCell_runs rs paraElements s =
       processTableCell_runs (filter (\<lambda>r. \<not> isBreakRun r) rs) paraElements s"
    by (rule processTableCell_runs_filter)
qed (simp_all add: Let_def)

theorem cell_break_runs_dropped_witness:
  "processTableCell_runs [plainText ''a'', Break, PageBreak, plainText ''b''] [] initial_state =
   processTableCell_runs [plainText ''a'', plainText ''b''] [] initial_state
   \<and> content (snd (processTableCell_runs [plainText ''a'', Break, PageBreak, plainText ''b''] []
        initial_state)) = ascii ''ab''"
proof -
  have "processTableCell_runs [plainText ''a'', Break, PageBreak, plainText ''b''] [] initial_state =
     processTableCell_runs (filter (\<lambda>r. \<not> isBreakRun r)
       [plainText ''a'', Break, PageBreak, plainText ''b'']) [] initial_state"
    using cell_break_runs_dropped [of "[]" initial_state] by blast
  then show ?thesis
    by (simp add: plainText_def initial_state_def ascii_def)
qed

section \<open>The footnote section\<close>

lemma appendFootnotesSection_loop_fields:
  "content (appendFootnotesSection_loop fs s) = content s @ concat (map footnoteEntryText fs)
   \<and> currentOffset (appendFootnotesSection_loop fs s) =
       currentOffset s + length (concat (map footnoteEntryText fs))
   \<and> elements (appendFootnotesSection_loop fs s) =
       elements s @ footnoteParagraphs (currentOffset s) fs
   \<and> collectedFootnotes (appendFootnotesSection_loop fs s) = collectedFootnotes s"
proof (induction fs arbitrary: s)
  case Nil
  show ?case by simp
next
  case (Cons f fs)
  show ?case
    by (simp add: Cons.IH Let_def footnoteEntryText_def ascii_def add.assoc
        superscriptAttrs_def size10Attrs_def defaultParagraphAttrs_def timesNewRoman_def
        trueAttr_def)
qed

lemma appendFootnotesSection_fields:
  "content (appendFootnotesSection s) = content s @ footnoteSectionText (collectedFootnotes s)"
  "currentOffset (appendFootnotesSection s) =
     currentOffset s + length (footnoteSectionText (collectedFootnotes s))"
  "elements (appendFootnotesSection s) =
     elements s @ footnoteSectionElements (currentOffset s) (collectedFootnotes s)"
  "collectedFootnotes (appendFootnotesSection s) = collectedFootnotes s"
  by (simp_all add: appendFootnotesSection_def Let_def appendFootnotesSection_loop_fields
      footnoteSectionText_def footnoteSectionElements_def placeholderParagraph_def separator_def
      size10Attrs_def defaultParagraphAttrs_def defaultContentAttrs_def timesNewRoman_def
      add.commute)

section \<open>Collected footnotes\<close>

lemma processParagraph_run_Inr:
  assumes "r \<noteq> PageBreak"
  shows "\<exists>pc' pe' s'. processParagraph_run p r pc pe s = Inr (pc', pe', s')
           \<and> content s' = content s \<and> elements s' = elements s
           \<and> collectedFootnotes s' = collectedFootnotes s @ runFootnotes [r]"
  using assms by (cases r) simp_all

lemma processParagraph_runs_Inr:
  assumes "PageBreak \<notin> set rs"
  shows "\<exists>pc' pe' s'. processParagraph_runs p rs pc pe s = Inr (pc', pe', s')
           \<and> content s' = content s \<and> elements s' = elements s
           \<and> collectedFootnotes s' = collectedFootnotes s @ runFootnotes rs"
  using assms
proof (induction rs arbitrary: pc pe s)
  case Nil
  show ?case by simp
next
  case (Cons r rs)
  then have r: "r \<noteq> PageBreak" and rs: "PageBreak \<notin> set rs" by auto
  obtain pc1 pe1 s1 where 1: "processParagraph_run p r pc pe s = Inr (pc1, pe1, s1)"
    "content s1 = content s" "elements s1 = elements s"
    "collectedFootnotes s1 = collectedFootnotes s @ runFootnotes [r]"
    using processParagraph_run_Inr [OF r] by blast
  obtain pc2 pe2 s2 where 2: "processParagraph_runs p rs pc1 pe1 s1 = Inr (pc2, pe2, s2)"
    "content s2 = content s1" "elements s2 = elements s1"
    "collectedFootnotes s2 = collectedFootnotes s1 @ runFootnotes rs"
    using Cons.IH [OF rs] by blast
  have "runFootnotes [r] @ runFootnotes rs = runFootnotes (r # rs)"
    by (cases r) simp_all
  with 1 2 show ?case by simp
qed

lemma processParagraph_runs_append:
  "processParagraph_runs p (rs @ rs') pc pe s =
     (case processParagraph_runs p rs pc pe s of
        Inl s' \<Rightarrow> Inl s'
      | Inr (pc', pe', s') \<Rightarrow> processParagraph_runs p rs' pc' pe' s')"
  by (induction rs arbitrary: pc pe s) (simp_all split: sum.splits)

lemma buildParagraphElement_runs_irrelevant:
  "buildParagraphElement (p\<lparr>runs := rs'\<rparr>) pe = buildParagraphElement p pe"
  by (simp add: buildParagraphElement_def)

lemma processParagraph_run_para_irrelevant:
  "processParagraph_run (p\<lparr>runs := rs'\<rparr>) r pc pe s = processParagraph_run p r pc pe s"
  by (cases r) (simp_all add: buildParagraphElement_runs_irrelevant Let_def)

lemma processParagraph_runs_para_irrelevant:
  "processParagraph_runs (p\<lparr>runs := rs'\<rparr>) rs pc pe s = processParagraph_runs p rs pc pe s"
  by (induction rs arbitrary: pc pe s)
    (simp_all add: processParagraph_run_para_irrelevant split: sum.splits)

text \<open>The state a page break leaves, from the state of the loop when it is met.\<close>

lemma processParagraph_at_pageBreak:
  assumes "runs p = pre @ PageBreak # post"
    and "processParagraph_runs p pre [] [] s = Inr (pc, pe, s1)"
  shows "processParagraph p s =
     (let s2 = s1\<lparr>content := content s1 @ concat pc\<rparr>;
          s3 = (if 0 < length pe
                then s2\<lparr>elements := elements s2 @ [ParagraphElem (buildParagraphElement p pe)]\<rparr>
                else s2);
          s4 = (if 0 < length (collectedFootnotes s3)
                then (appendFootnotesSection s3)\<lparr>collectedFootnotes := []\<rparr>
                else s3)
      in s4\<lparr>elements := elements s4 @ [PageBreakEl]\<rparr>)"
  using assms by (simp add: processParagraph_def processParagraph_runs_append Let_def)

section \<open>Page break in a body paragraph\<close>

lemma buildParagraphElement_children:
  "buildParagraphElement p ls = ParagraphEl (para_attrs (buildParagraphElement p [])) ls"
  by (simp add: buildParagraphElement_def Let_def)

text \<open>The loop of \<open>processParagraph\<close> on runs without a page break does what
  \<open>runPieces\<close> and \<open>runLeaves\<close> say.\<close>

lemma processParagraph_runs_spec:
  assumes "PageBreak \<notin> set rs"
  shows "\<exists>s1. processParagraph_runs p rs pc pe s
               = Inr (pc @ runPieces rs, pe @ runLeaves (currentOffset s) rs, s1)
           \<and> content s1 = content s \<and> elements s1 = elements s
           \<and> collectedFootnotes s1 = collectedFootnotes s @ runFootnotes rs
           \<and> currentOffset s1 = currentOffset s + length (concat (runPieces rs))"
  using assms
proof (induction rs arbitrary: pc pe s)
  case Nil
  show ?case by simp
next
  case (Cons r rs)
  then have rs: "PageBreak \<notin> set rs" and r: "r \<noteq> PageBreak" by auto
  show ?case
  proof (cases r)
    case (Text x)
    from Cons.IH [OF rs, of "pc @ [text_str x]"
        "pe @ [ContentEl (currentOffset s) (length (text_str x)) (buildContentAttrs x)]"
        "s\<lparr>currentOffset := currentOffset s + length (text_str x)\<rparr>"]
    show ?thesis using Text by auto
  next
    case Tab
    from Cons.IH [OF rs, of "pc @ [[0x09]]" "pe @ [TabEl (currentOffset s) 1]"
        "s\<lparr>currentOffset := currentOffset s + 1\<rparr>"]
    show ?thesis using Tab by auto
  next
    case (Image imageData w h)
    show ?thesis
    proof (cases "truthy_str imageData")
      case True
      from Cons.IH [OF rs, of "pc @ [[0xFFFC]]"
          "pe @ [ImageEl (currentOffset s) 1 (toString_opt imageData) w h]"
          "s\<lparr>currentOffset := currentOffset s + 1\<rparr>"]
      show ?thesis using Image True by auto
    next
      case False
      from Cons.IH [OF rs, of pc pe s]
      show ?thesis using Image False by auto
    qed
  next
    case Break
    from Cons.IH [OF rs, of "pc @ [[0x0A]]" pe "s\<lparr>currentOffset := currentOffset s + 1\<rparr>"]
    show ?thesis using Break by auto
  next
    case PageBreak
    with r show ?thesis by simp
  next
    case (FootnoteRef footnoteNum footnoteText)
    from Cons.IH [OF rs, of "pc @ [footnoteNum]"
        "pe @ [ContentEl (currentOffset s) (length footnoteNum) superscriptAttrs]"
        "s\<lparr>collectedFootnotes :=
              collectedFootnotes s @ [\<lparr>number = footnoteNum, body = footnoteText\<rparr>],
           currentOffset := currentOffset s + length footnoteNum\<rparr>"]
    show ?thesis using FootnoteRef
      by (auto simp add: superscriptAttrs_def timesNewRoman_def trueAttr_def)
  qed
qed

text \<open>
  C3 (as amended).  When the runs of a body paragraph (a top-level block, rendered by
  \<open>processParagraph\<close>) are \<open>pre\<close>, a page break, and \<open>post\<close>, with no page break in
  \<open>pre\<close>: the buffer receives the text of the runs of \<open>pre\<close>; the elements of those
  runs are emitted as the children of one paragraph element, which is emitted only when
  there is at least one such element; then, when footnotes are pending (those pending
  before the paragraph and those referenced in \<open>pre\<close>), the footnote section of exactly
  those footnotes is emitted and the pending list is emptied; the page-break marker is
  emitted last.  The runs of \<open>post\<close> play no part: the paragraph cut after the break
  gives the same state.  In a paragraph of a table cell the page-break run is skipped
  and changes nothing.
\<close>

theorem page_break_terminates_paragraph:
  assumes "runs p = pre @ PageBreak # post" and "PageBreak \<notin> set pre"
  shows "\<exists>attrs.
       content (processParagraph p s) =
         content s @ concat (runPieces pre)
         @ (if collectedFootnotes s @ runFootnotes pre = [] then []
            else footnoteSectionText (collectedFootnotes s @ runFootnotes pre))
     \<and> elements (processParagraph p s) =
         elements s
         @ (if runLeaves (currentOffset s) pre = [] then []
            else [ParagraphElem (ParagraphEl attrs (runLeaves (currentOffset s) pre))])
         @ (if collectedFootnotes s @ runFootnotes pre = [] then []
            else footnoteSectionElements (currentOffset s + length (concat (runPieces pre)))
                   (collectedFootnotes s @ runFootnotes pre))
         @ [PageBreakEl]
     \<and> currentOffset (processParagraph p s) =
         currentOffset s + length (concat (runPieces pre))
         + (if collectedFootnotes s @ runFootnotes pre = [] then 0
            else length (footnoteSectionText (collectedFootnotes s @ runFootnotes pre)))
     \<and> collectedFootnotes (processParagraph p s) = []
     \<and> processParagraph p s = processParagraph (p\<lparr>runs := pre @ [PageBreak]\<rparr>) s
     \<and> processTableCell_run PageBreak cellParaElements s = (cellParaElements, s)"
proof -
  obtain s1 where loop: "processParagraph_runs p pre [] [] s
      = Inr ([] @ runPieces pre, [] @ runLeaves (currentOffset s) pre, s1)"
    and s1: "content s1 = content s" "elements s1 = elements s"
      "collectedFootnotes s1 = collectedFootnotes s @ runFootnotes pre"
      "currentOffset s1 = currentOffset s + length (concat (runPieces pre))"
    using processParagraph_runs_spec [OF assms(2), of p "[]" "[]" s] by blast
  note at = processParagraph_at_pageBreak [OF assms(1) loop]
  have ch: "buildParagraphElement p (runLeaves (currentOffset s) pre)
      = ParagraphEl (para_attrs (buildParagraphElement p [])) (runLeaves (currentOffset s) pre)"
    by (rule buildParagraphElement_children)
  have cut: "processParagraph (p\<lparr>runs := pre @ [PageBreak]\<rparr>) s = processParagraph p s"
  proof -
    have "runs (p\<lparr>runs := pre @ [PageBreak]\<rparr>) = pre @ PageBreak # []" by simp
    moreover have "processParagraph_runs (p\<lparr>runs := pre @ [PageBreak]\<rparr>) pre [] [] s
        = Inr ([] @ runPieces pre, [] @ runLeaves (currentOffset s) pre, s1)"
      by (simp only: processParagraph_runs_para_irrelevant loop)
    ultimately have "processParagraph (p\<lparr>runs := pre @ [PageBreak]\<rparr>) s =
     (let s2 = s1\<lparr>content := content s1 @ concat ([] @ runPieces pre)\<rparr>;
          s3 = (if 0 < length ([] @ runLeaves (currentOffset s) pre)
                then s2\<lparr>elements := elements s2
                  @ [ParagraphElem (buildParagraphElement (p\<lparr>runs := pre @ [PageBreak]\<rparr>)
                       ([] @ runLeaves (currentOffset s) pre))]\<rparr>
                else s2);
          s4 = (if 0 < length (collectedFootnotes s3)
                then (appendFootnotesSection s3)\<lparr>collectedFootnotes := []\<rparr>
                else s3)
      in s4\<lparr>elements := elements s4 @ [PageBreakEl]\<rparr>)"
      by (rule processParagraph_at_pageBreak)
    then show ?thesis by (simp add: at buildParagraphElement_runs_irrelevant Let_def)
  qed
  show ?thesis
  proof (intro exI [of _ "para_attrs (buildParagraphElement p [])"] conjI)
    show "processParagraph p s = processParagraph (p\<lparr>runs := pre @ [PageBreak]\<rparr>) s"
      by (simp add: cut)
    show "processTableCell_run PageBreak cellParaElements s = (cellParaElements, s)"
      by simp
  qed (auto simp add: at Let_def s1 appendFootnotesSection_fields ch)
qed

theorem page_break_terminates_paragraph_witness:
  "runs (plainParagraph [plainText ''a'', FootnoteRef (ascii ''1'') (ascii ''n''), PageBreak,
          plainText ''zz''])
     = [plainText ''a'', FootnoteRef (ascii ''1'') (ascii ''n'')] @ PageBreak # [plainText ''zz'']
   \<and> PageBreak \<notin> set [plainText ''a'', FootnoteRef (ascii ''1'') (ascii ''n'')]
   \<and> collectedFootnotes (processParagraph
         (plainParagraph [plainText ''a'', FootnoteRef (ascii ''1'') (ascii ''n''), PageBreak,
            plainText ''zz'']) initial_state) = []
   \<and> content (processParagraph
         (plainParagraph [plainText ''a'', FootnoteRef (ascii ''1'') (ascii ''n''), PageBreak,
            plainText ''zz'']) initial_state)
       = ascii ''a1'' @ [0x0A] @ replicate 20 0x2500 @ [0x0A] @ ascii ''1. n''
   \<and> spans (elements (processParagraph
         (plainParagraph [plainText ''a'', FootnoteRef (ascii ''1'') (ascii ''n''), PageBreak,
            plainText ''zz'']) initial_state))
       = [(0, 1), (1, 1), (2, 1), (3, 20), (24, 3), (27, 1)]
   \<and> last (elements (processParagraph
         (plainParagraph [plainText ''a'', FootnoteRef (ascii ''1'') (ascii ''n''), PageBreak,
            plainText ''zz'']) initial_state)) = PageBreakEl"
proof -
  let ?pre = "[plainText ''a'', FootnoteRef (ascii ''1'') (ascii ''n'')]"
  let ?p = "plainParagraph [plainText ''a'', FootnoteRef (ascii ''1'') (ascii ''n''), PageBreak,
          plainText ''zz'']"
  have r: "runs ?p = ?pre @ PageBreak # [plainText ''zz'']"
    by (simp add: plainParagraph_def)
  have n: "PageBreak \<notin> set ?pre"
    by (simp add: plainText_def)
  note t = page_break_terminates_paragraph [OF r n, of initial_state]
  have f: "collectedFootnotes (processParagraph ?p initial_state) = []"
    using t by blast
  have c0: "content (processParagraph ?p initial_state) =
         content initial_state @ concat (runPieces ?pre)
         @ (if collectedFootnotes initial_state @ runFootnotes ?pre = [] then []
            else footnoteSectionText (collectedFootnotes initial_state @ runFootnotes ?pre))"
    using t by blast
  have c: "content (processParagraph ?p initial_state)
       = ascii ''a1'' @ [0x0A] @ replicate 20 0x2500 @ [0x0A] @ ascii ''1. n''"
    unfolding c0
    by (simp add: initial_state_def plainText_def ascii_def footnoteSectionText_def
        footnoteEntryText_def)
  obtain attrs where e: "elements (processParagraph ?p initial_state) =
         elements initial_state
         @ (if runLeaves (currentOffset initial_state) ?pre = [] then []
            else [ParagraphElem (ParagraphEl attrs
                    (runLeaves (currentOffset initial_state) ?pre))])
         @ (if collectedFootnotes initial_state @ runFootnotes ?pre = [] then []
            else footnoteSectionElements
                   (currentOffset initial_state + length (concat (runPieces ?pre)))
                   (collectedFootnotes initial_state @ runFootnotes ?pre))
         @ [PageBreakEl]"
    using t by blast
  have sp: "spans (elements (processParagraph ?p initial_state))
       = [(0, 1), (1, 1), (2, 1), (3, 20), (24, 3), (27, 1)]"
    unfolding e
    by (simp add: initial_state_def plainText_def ascii_def footnoteSectionElements_def
        footnoteEntryText_def spans_def)
  have l: "last (elements (processParagraph ?p initial_state)) = PageBreakEl"
    unfolding e by simp
  show ?thesis using r n f c sp l by (intro conjI)
qed

text \<open>
  The claim as stated fails for a paragraph of a table cell, where the run after the
  page break is rendered and no marker is emitted; and in a body paragraph whose runs
  before the break emit no element (a line break), the newline reaches the buffer but no
  paragraph element is emitted.
\<close>

theorem page_break_every_paragraph_counterexample:
  "content (generate_state
     [Table (plainTable [[plainCell False [plainParagraph [PageBreak, plainText ''b'']]]])])
     = [0x62]
   \<and> spans (elements (generate_state
     [Table (plainTable [[plainCell False [plainParagraph [PageBreak, plainText ''b'']]]])]))
     = [(0, 1)]
   \<and> PageBreakEl \<notin> set (elements (generate_state
     [Table (plainTable [[plainCell False [plainParagraph [PageBreak, plainText ''b'']]]])]))
   \<and> content (generate_state [Paragraph (plainParagraph [Break, PageBreak])]) = [0x0A]
   \<and> elements (generate_state [Paragraph (plainParagraph [Break, PageBreak])]) = [PageBreakEl]"
  by (simp add: generate_state_def processParagraph_def processParagraph_finish_def
      processTable_def processTableCell_def processTable_cell_def
      plainParagraph_def plainText_def plainTable_def plainCell_def initial_state_def spans_def
      buildParagraphElement_def ascii_def Let_def)

section \<open>Pending footnotes\<close>

lemma runFootnotes_Cons: "runFootnotes (r # rs) = runFootnotes [r] @ runFootnotes rs"
  by (cases r) simp_all

lemma runFootnotes_append: "runFootnotes (rs @ rs') = runFootnotes rs @ runFootnotes rs'"
proof (induction rs)
  case Nil
  show ?case by simp
next
  case (Cons r rs)
  then show ?case
    using runFootnotes_Cons [of r "rs @ rs'"] runFootnotes_Cons [of r rs] by simp
qed

lemma processTableCell_run_footnotes:
  "collectedFootnotes (snd (processTableCell_run r pe s)) = collectedFootnotes s @ runFootnotes [r]"
  by (cases r) simp_all

lemma processTableCell_runs_footnotes:
  "collectedFootnotes (snd (processTableCell_runs rs pe s)) = collectedFootnotes s @ runFootnotes rs"
proof (induction rs arbitrary: pe s)
  case Nil
  show ?case by simp
next
  case (Cons r rs)
  show ?case
    using processTableCell_run_footnotes [of r pe s] runFootnotes_Cons [of r rs]
    by (auto simp add: Cons.IH split: prod.splits)
qed

lemma processTableCell_paragraphs_footnotes:
  "collectedFootnotes (snd (processTableCell_paragraphs ps ces s)) =
     collectedFootnotes s @ concat (map (\<lambda>p. runFootnotes (runs p)) ps)"
proof (induction ps arbitrary: ces s)
  case Nil
  show ?case by simp
next
  case (Cons p ps)
  show ?case
    using processTableCell_runs_footnotes [of "runs p" "[]" s]
    by (auto simp add: Cons.IH Let_def split: prod.splits)
qed

lemma processTableCell_footnotes:
  "collectedFootnotes (snd (processTableCell c s)) = collectedFootnotes s @ cellFootnotes c"
  using processTableCell_paragraphs_footnotes [of "paragraphs c" "[]" s]
  by (auto simp add: processTableCell_def cellFootnotes_def Let_def split: prod.splits)

lemma processTable_cells_footnotes:
  "collectedFootnotes (snd (processTable_cells cs ces s)) =
     collectedFootnotes s @ concat (map cellFootnotes (filter (\<lambda>c. \<not> vMergeContinue c) cs))"
proof (induction cs arbitrary: ces s)
  case Nil
  show ?case by simp
next
  case (Cons c cs)
  show ?case
    using processTableCell_footnotes [of c s]
    by (auto simp add: Cons.IH processTable_cell_def Let_def split: prod.splits)
qed

lemma processTable_rows_footnotes:
  "collectedFootnotes (snd (processTable_rows rs i res s)) =
     collectedFootnotes s
     @ concat (map cellFootnotes (filter (\<lambda>c. \<not> vMergeContinue c) (concat (map cells rs))))"
proof (induction rs arbitrary: i res s)
  case Nil
  show ?case by simp
next
  case (Cons r rs)
  show ?case
    using processTable_cells_footnotes [of "cells r" "[]" s]
    by (auto simp add: Cons.IH Let_def split: prod.splits)
qed

lemma processTable_footnotes:
  "collectedFootnotes (processTable t s) = collectedFootnotes s @ tableFootnotes t"
  using processTable_rows_footnotes [of "rows t" 0 "[]" s]
  by (auto simp add: processTable_def tableFootnotes_def Let_def split: prod.splits)

lemma processParagraph_finish_footnotes:
  "collectedFootnotes (processParagraph_finish p pc pe s) = collectedFootnotes s"
  by (simp add: processParagraph_finish_def)

lemma processParagraph_footnotes:
  "collectedFootnotes (processParagraph p s) = pendingAfterBlock (collectedFootnotes s) (Paragraph p)"
proof (cases "PageBreak \<in> set (runs p)")
  case True
  then obtain pre post where r: "runs p = pre @ PageBreak # post" and n: "PageBreak \<notin> set pre"
    by (meson split_list_first)
  obtain pc pe s1 where loop: "processParagraph_runs p pre [] [] s = Inr (pc, pe, s1)"
    using processParagraph_runs_Inr [OF n] by blast
  show ?thesis
    using True by (simp add: processParagraph_at_pageBreak [OF r loop] Let_def)
next
  case False
  obtain pc pe s1 where loop: "processParagraph_runs p (runs p) [] [] s = Inr (pc, pe, s1)"
    and "collectedFootnotes s1 = collectedFootnotes s @ runFootnotes (runs p)"
    using processParagraph_runs_Inr [OF False] by blast
  then show ?thesis
    using False by (simp add: processParagraph_def processParagraph_finish_footnotes)
qed

lemma processElements_footnotes:
  "collectedFootnotes (processElements d s) = foldl pendingAfterBlock (collectedFootnotes s) d"
proof (induction d arbitrary: s)
  case Nil
  show ?case by simp
next
  case (Cons b d)
  show ?case
    by (cases b) (simp_all add: Cons.IH processParagraph_footnotes processTable_footnotes)
qed

lemma footnoteSectionText_not_empty: "footnoteSectionText fs \<noteq> []"
  by (simp add: footnoteSectionText_def)

section \<open>The footnote flush\<close>

lemma processParagraph_run_PageBreak_fields:
  assumes "collectedFootnotes s \<noteq> []"
  shows "\<exists>s' attrs. processParagraph_run p PageBreak paraContent paraElements s = Inl s'
     \<and> content s' = content s @ concat paraContent @ footnoteSectionText (collectedFootnotes s)
     \<and> elements s' =
         elements s
         @ (if paraElements = [] then []
            else [ParagraphElem (ParagraphEl attrs paraElements)])
         @ footnoteSectionElements (currentOffset s) (collectedFootnotes s)
         @ [PageBreakEl]
     \<and> currentOffset s' = currentOffset s + length (footnoteSectionText (collectedFootnotes s))
     \<and> collectedFootnotes s' = []"
proof -
  have "\<exists>s'. processParagraph_run p PageBreak paraContent paraElements s = Inl s'
     \<and> content s' = content s @ concat paraContent @ footnoteSectionText (collectedFootnotes s)
     \<and> elements s' =
         elements s
         @ (if paraElements = [] then []
            else [ParagraphElem (buildParagraphElement p paraElements)])
         @ footnoteSectionElements (currentOffset s) (collectedFootnotes s)
         @ [PageBreakEl]
     \<and> currentOffset s' = currentOffset s + length (footnoteSectionText (collectedFootnotes s))
     \<and> collectedFootnotes s' = []"
    using assms by (simp add: Let_def appendFootnotesSection_fields)
  then show ?thesis
    unfolding buildParagraphElement_children [of p paraElements] by blast
qed

text \<open>
  C4.  A flush appends to the buffer a newline, the rule of twenty U+2500 characters and,
  for each pending footnote in the order of the pending list, a newline, the label with
  \<open>. \<close> and the body.  It appends to the elements the blank-line paragraph (a default
  content element on the first newline), the rule paragraph, and for each footnote a
  paragraph of two content elements: the prefix with \<open>superscript="true"\<close> and the body
  with family and size only, each at its own offsets; the cursor advances by the text
  appended.  The flush at a page break is this same section, emitted after the pieces
  and the paragraph element of the runs before the break and before the page-break
  marker, and it empties the pending list.  After all blocks the pending list holds the
  footnotes referenced since the last page break of a body paragraph, in reference order;
  when it is non-empty the final state is that of one flush after the last block, and
  when it is empty no footnote section is appended at the end.
\<close>

theorem footnote_flush:
  "content (appendFootnotesSection s) = content s @ footnoteSectionText (collectedFootnotes s)
   \<and> elements (appendFootnotesSection s) =
       elements s @ footnoteSectionElements (currentOffset s) (collectedFootnotes s)
   \<and> currentOffset (appendFootnotesSection s) =
       currentOffset s + length (footnoteSectionText (collectedFootnotes s))
   \<and> (collectedFootnotes s \<noteq> [] \<longrightarrow>
        (\<exists>s' attrs. processParagraph_run p PageBreak paraContent paraElements s = Inl s'
           \<and> content s' =
               content s @ concat paraContent @ footnoteSectionText (collectedFootnotes s)
           \<and> elements s' =
               elements s
               @ (if paraElements = [] then []
                  else [ParagraphElem (ParagraphEl attrs paraElements)])
               @ footnoteSectionElements (currentOffset s) (collectedFootnotes s)
               @ [PageBreakEl]
           \<and> currentOffset s' =
               currentOffset s + length (footnoteSectionText (collectedFootnotes s))
           \<and> collectedFootnotes s' = []))
   \<and> collectedFootnotes (processElements d initial_state) = pendingFootnotes d
   \<and> (pendingFootnotes d \<noteq> [] \<longrightarrow>
        generate_state d = appendFootnotesSection (processElements d initial_state))
   \<and> (pendingFootnotes d = [] \<longrightarrow>
        elements (generate_state d) =
          elements (processElements d initial_state)
          @ (if content (processElements d initial_state) = []
             then [ParagraphElem (ParagraphEl
                     [(''Alignment'', AStr (ascii ''0'')), (''LeftIndent'', AStr (ascii ''0.0'')),
                      (''RightIndent'', AStr (ascii ''0.0''))]
                     [ContentEl 0 1 [(''family'', AStr (ascii ''Times New Roman'')),
                                     (''size'', ANum (Some 12))]])]
             else []))"
proof (intro conjI impI)
  show "content (appendFootnotesSection s) = content s @ footnoteSectionText (collectedFootnotes s)"
    by (rule appendFootnotesSection_fields)
  show "elements (appendFootnotesSection s) =
       elements s @ footnoteSectionElements (currentOffset s) (collectedFootnotes s)"
    by (rule appendFootnotesSection_fields)
  show "currentOffset (appendFootnotesSection s) =
       currentOffset s + length (footnoteSectionText (collectedFootnotes s))"
    by (rule appendFootnotesSection_fields)
  show pend: "collectedFootnotes (processElements d initial_state) = pendingFootnotes d"
    by (simp add: processElements_footnotes pendingFootnotes_def initial_state_def)
  show "generate_state d = appendFootnotesSection (processElements d initial_state)"
    if "pendingFootnotes d \<noteq> []"
    using that
    by (simp add: generate_state_def Let_def pend appendFootnotesSection_fields
        footnoteSectionText_not_empty)
  show "elements (generate_state d) =
          elements (processElements d initial_state)
          @ (if content (processElements d initial_state) = []
             then [ParagraphElem (ParagraphEl
                     [(''Alignment'', AStr (ascii ''0'')), (''LeftIndent'', AStr (ascii ''0.0'')),
                      (''RightIndent'', AStr (ascii ''0.0''))]
                     [ContentEl 0 1 [(''family'', AStr (ascii ''Times New Roman'')),
                                     (''size'', ANum (Some 12))]])]
             else [])"
    if "pendingFootnotes d = []"
    using that
    by (simp add: generate_state_def Let_def pend placeholderParagraph_def
        defaultParagraphAttrs_def defaultContentAttrs_def timesNewRoman_def)
next
  assume "collectedFootnotes s \<noteq> []"
  then show "\<exists>s' attrs. processParagraph_run p PageBreak paraContent paraElements s = Inl s'
           \<and> content s' =
               content s @ concat paraContent @ footnoteSectionText (collectedFootnotes s)
           \<and> elements s' =
               elements s
               @ (if paraElements = [] then []
                  else [ParagraphElem (ParagraphEl attrs paraElements)])
               @ footnoteSectionElements (currentOffset s) (collectedFootnotes s)
               @ [PageBreakEl]
           \<and> currentOffset s' =
               currentOffset s + length (footnoteSectionText (collectedFootnotes s))
           \<and> collectedFootnotes s' = []"
    by (rule processParagraph_run_PageBreak_fields)
qed

theorem footnote_flush_witness:
  "pendingFootnotes
     [Paragraph (plainParagraph [FootnoteRef (ascii ''1'') (ascii ''x''), PageBreak]),
      Paragraph (plainParagraph [plainText ''b'', FootnoteRef (ascii ''2'') (ascii ''y'')])]
     = [\<lparr>number = ascii ''2'', body = ascii ''y''\<rparr>]
   \<and> generate_state
     [Paragraph (plainParagraph [FootnoteRef (ascii ''1'') (ascii ''x''), PageBreak]),
      Paragraph (plainParagraph [plainText ''b'', FootnoteRef (ascii ''2'') (ascii ''y'')])]
     = appendFootnotesSection (processElements
     [Paragraph (plainParagraph [FootnoteRef (ascii ''1'') (ascii ''x''), PageBreak]),
      Paragraph (plainParagraph [plainText ''b'', FootnoteRef (ascii ''2'') (ascii ''y'')])]
       initial_state)
   \<and> pendingFootnotes [Paragraph (plainParagraph [plainText ''b''])] = []
   \<and> elements (generate_state [Paragraph (plainParagraph [plainText ''b''])]) =
       elements (processElements [Paragraph (plainParagraph [plainText ''b''])] initial_state)
   \<and> collectedFootnotes (initial_state\<lparr>collectedFootnotes := [\<lparr>number = ascii ''7'', body = ascii ''z''\<rparr>]\<rparr>)
       \<noteq> []
   \<and> (\<exists>s'. processParagraph_run (plainParagraph [PageBreak]) PageBreak [] []
         (initial_state\<lparr>collectedFootnotes := [\<lparr>number = ascii ''7'', body = ascii ''z''\<rparr>]\<rparr>)
       = Inl s'
       \<and> content s' = [0x0A] @ replicate 20 0x2500 @ [0x0A] @ ascii ''7. z''
       \<and> collectedFootnotes s' = [])
   \<and> content (appendFootnotesSection
         (initial_state\<lparr>collectedFootnotes := [\<lparr>number = ascii ''7'', body = ascii ''z''\<rparr>]\<rparr>))
       = [0x0A] @ replicate 20 0x2500 @ [0x0A] @ ascii ''7. z''
   \<and> elements (appendFootnotesSection
         (initial_state\<lparr>collectedFootnotes := [\<lparr>number = ascii ''7'', body = ascii ''z''\<rparr>]\<rparr>))
       = [ParagraphElem (ParagraphEl
            [(''Alignment'', AStr (ascii ''0'')), (''LeftIndent'', AStr (ascii ''0.0'')),
             (''RightIndent'', AStr (ascii ''0.0''))]
            [ContentEl 0 1 [(''family'', AStr (ascii ''Times New Roman'')),
                            (''size'', ANum (Some 12))]]),
          ParagraphElem (ParagraphEl
            [(''Alignment'', AStr (ascii ''0'')), (''LeftIndent'', AStr (ascii ''0.0'')),
             (''RightIndent'', AStr (ascii ''0.0''))]
            [ContentEl 1 20 [(''family'', AStr (ascii ''Times New Roman'')),
                             (''size'', ANum (Some 10))]]),
          ParagraphElem (ParagraphEl
            [(''Alignment'', AStr (ascii ''0'')), (''LeftIndent'', AStr (ascii ''0.0'')),
             (''RightIndent'', AStr (ascii ''0.0''))]
            [ContentEl 22 3 [(''family'', AStr (ascii ''Times New Roman'')),
                             (''size'', ANum (Some 10)),
                             (''superscript'', AStr (ascii ''true''))],
             ContentEl 25 1 [(''family'', AStr (ascii ''Times New Roman'')),
                             (''size'', ANum (Some 10))]])]"
proof -
  let ?d = "[Paragraph (plainParagraph [FootnoteRef (ascii ''1'') (ascii ''x''), PageBreak]),
      Paragraph (plainParagraph [plainText ''b'', FootnoteRef (ascii ''2'') (ascii ''y'')])]"
  let ?e = "[Paragraph (plainParagraph [plainText ''b''])]"
  let ?s = "initial_state\<lparr>collectedFootnotes := [\<lparr>number = ascii ''7'', body = ascii ''z''\<rparr>]\<rparr>"
  have p: "pendingFootnotes ?d = [\<lparr>number = ascii ''2'', body = ascii ''y''\<rparr>]"
    by (simp add: pendingFootnotes_def plainParagraph_def plainText_def)
  have q: "pendingFootnotes ?e = []"
    by (simp add: pendingFootnotes_def plainParagraph_def plainText_def)
  have c: "content (processElements ?e initial_state) \<noteq> []"
    by (simp add: plainParagraph_def plainText_def processParagraph_def
        processParagraph_finish_def initial_state_def ascii_def)
  have n: "collectedFootnotes ?s \<noteq> []" by simp
  have 1: "generate_state ?d = appendFootnotesSection (processElements ?d initial_state)"
    using footnote_flush [of _ _ _ _ ?d] p by simp
  have 2: "elements (generate_state ?e) = elements (processElements ?e initial_state)"
    using footnote_flush [of _ _ _ _ ?e] q c by simp
  have t: "footnoteSectionText (collectedFootnotes ?s)
      = [0x0A] @ replicate 20 0x2500 @ [0x0A] @ ascii ''7. z''"
    by (simp add: footnoteSectionText_def footnoteEntryText_def ascii_def)
  obtain s' where "processParagraph_run (plainParagraph [PageBreak]) PageBreak [] [] ?s = Inl s'"
    and "content s' = content ?s @ concat [] @ footnoteSectionText (collectedFootnotes ?s)"
    and "collectedFootnotes s' = []"
    using footnote_flush [of ?s "plainParagraph [PageBreak]" "[]" "[]"] n by blast
  then have 3: "\<exists>s'. processParagraph_run (plainParagraph [PageBreak]) PageBreak [] [] ?s = Inl s'
       \<and> content s' = [0x0A] @ replicate 20 0x2500 @ [0x0A] @ ascii ''7. z''
       \<and> collectedFootnotes s' = []"
    unfolding t by (simp add: initial_state_def)
  have "content (appendFootnotesSection ?s) = content ?s @ footnoteSectionText (collectedFootnotes ?s)"
    using footnote_flush [of ?s] by blast
  then have 4: "content (appendFootnotesSection ?s)
      = [0x0A] @ replicate 20 0x2500 @ [0x0A] @ ascii ''7. z''"
    unfolding t by (simp add: initial_state_def)
  have "elements (appendFootnotesSection ?s)
      = elements ?s @ footnoteSectionElements (currentOffset ?s) (collectedFootnotes ?s)"
    using footnote_flush [of ?s] by blast
  then have 5: "elements (appendFootnotesSection ?s)
       = [ParagraphElem (ParagraphEl
            [(''Alignment'', AStr (ascii ''0'')), (''LeftIndent'', AStr (ascii ''0.0'')),
             (''RightIndent'', AStr (ascii ''0.0''))]
            [ContentEl 0 1 [(''family'', AStr (ascii ''Times New Roman'')),
                            (''size'', ANum (Some 12))]]),
          ParagraphElem (ParagraphEl
            [(''Alignment'', AStr (ascii ''0'')), (''LeftIndent'', AStr (ascii ''0.0'')),
             (''RightIndent'', AStr (ascii ''0.0''))]
            [ContentEl 1 20 [(''family'', AStr (ascii ''Times New Roman'')),
                             (''size'', ANum (Some 10))]]),
          ParagraphElem (ParagraphEl
            [(''Alignment'', AStr (ascii ''0'')), (''LeftIndent'', AStr (ascii ''0.0'')),
             (''RightIndent'', AStr (ascii ''0.0''))]
            [ContentEl 22 3 [(''family'', AStr (ascii ''Times New Roman'')),
                             (''size'', ANum (Some 10)),
                             (''superscript'', AStr (ascii ''true''))],
             ContentEl 25 1 [(''family'', AStr (ascii ''Times New Roman'')),
                             (''size'', ANum (Some 10))]])]"
    by (simp add: initial_state_def footnoteSectionElements_def footnoteEntryText_def ascii_def)
  show ?thesis using p q n 1 2 3 4 5 by (intro conjI)
qed

section \<open>Tilings\<close>

lemma tiles_append:
  "tiles G xs a b1 \<Longrightarrow> tiles G ys (a + length b1) b2 \<Longrightarrow> tiles G (xs @ ys) a (b1 @ b2)"
proof (induction xs arbitrary: a b1)
  case Nil
  show ?case
  proof (cases ys)
    case Nil
    with Nil.prems show ?thesis by simp
  next
    case (Cons y ys')
    obtain off len where y: "y = (off, len)" by (cases y)
    have g: "set b1 \<subseteq> G" using Nil.prems(1) by simp
    have "a + length b1 \<le> off \<and> off - (a + length b1) + len \<le> length b2
      \<and> set (take (off - (a + length b1)) b2) \<subseteq> G
      \<and> tiles G ys' (off + len) (drop (off - (a + length b1) + len) b2)"
      using Nil.prems(2) unfolding Cons y by (simp only: tiles.simps)
    then have le: "a + length b1 \<le> off"
      and fit: "off - (a + length b1) + len \<le> length b2"
      and gap: "set (take (off - (a + length b1)) b2) \<subseteq> G"
      and rest: "tiles G ys' (off + len) (drop (off - (a + length b1) + len) b2)"
      by blast+
    have tk: "take (off - a) (b1 @ b2) = b1 @ take (off - (a + length b1)) b2"
      using le by simp
    have dr: "drop (off - a + len) (b1 @ b2) = drop (off - (a + length b1) + len) b2"
      using le by simp
    have 1: "a \<le> off" using le by simp
    have 2: "off - a + len \<le> length (b1 @ b2)" using le fit by simp
    have 3: "set (take (off - a) (b1 @ b2)) \<subseteq> G" unfolding tk using g gap by simp
    have 4: "tiles G ys' (off + len) (drop (off - a + len) (b1 @ b2))"
      unfolding dr by (rule rest)
    show ?thesis
      unfolding Cons y append_Nil tiles.simps using 1 2 3 4 by blast
  qed
next
  case (Cons x xs)
  obtain off len where x: "x = (off, len)" by (cases x)
  have "a \<le> off \<and> off - a + len \<le> length b1 \<and> set (take (off - a) b1) \<subseteq> G
    \<and> tiles G xs (off + len) (drop (off - a + len) b1)"
    using Cons.prems(1) unfolding x by (simp only: tiles.simps)
  then have le: "a \<le> off" and fit: "off - a + len \<le> length b1"
    and gap: "set (take (off - a) b1) \<subseteq> G"
    and rest: "tiles G xs (off + len) (drop (off - a + len) b1)"
    by blast+
  have e: "off + len + length (drop (off - a + len) b1) = a + length b1"
    using le fit by simp
  have "tiles G ys (off + len + length (drop (off - a + len) b1)) b2"
    unfolding e by (rule Cons.prems(2))
  from Cons.IH [OF rest this]
  have ih: "tiles G (xs @ ys) (off + len) (drop (off - a + len) b1 @ b2)" .
  have dr: "drop (off - a + len) (b1 @ b2) = drop (off - a + len) b1 @ b2"
    using fit by simp
  have tk: "take (off - a) (b1 @ b2) = take (off - a) b1"
    using fit by simp
  have 2: "off - a + len \<le> length (b1 @ b2)" using fit by simp
  have 3: "set (take (off - a) (b1 @ b2)) \<subseteq> G" unfolding tk by (rule gap)
  have 4: "tiles G (xs @ ys) (off + len) (drop (off - a + len) (b1 @ b2))"
    unfolding dr by (rule ih)
  show ?case
    unfolding x append_Cons tiles.simps using le 2 3 4 by blast
qed

lemma tiles_snoc:
  assumes "tiles G sp 0 b"
  shows "tiles G (sp @ [(length b, length t)]) 0 (b @ t)"
proof -
  have "tiles G [(0 + length b, length t)] (0 + length b) t" by simp
  with assms show ?thesis using tiles_append [of G sp 0 b "[(length b, length t)]" t] by simp
qed

lemma tiles_gap_snoc:
  assumes "tiles G sp 0 b" and "set t \<subseteq> G"
  shows "tiles G sp 0 (b @ t)"
proof -
  have "tiles G [] (0 + length b) t" using assms(2) by simp
  with assms(1) show ?thesis using tiles_append [of G sp 0 b "[]" t] by simp
qed

lemma tiles_ordered_within: "tiles G xs a buf \<Longrightarrow> ordered_within xs a (a + length buf)"
proof (induction xs arbitrary: a buf)
  case Nil
  show ?case by simp
next
  case (Cons x xs)
  obtain off len where x: "x = (off, len)" by (cases x)
  have "a \<le> off \<and> off - a + len \<le> length buf \<and> set (take (off - a) buf) \<subseteq> G
    \<and> tiles G xs (off + len) (drop (off - a + len) buf)"
    using Cons.prems unfolding x by (simp only: tiles.simps)
  then have le: "a \<le> off" and fit: "off - a + len \<le> length buf"
    and rest: "tiles G xs (off + len) (drop (off - a + len) buf)"
    by blast+
  have e: "off + len + length (drop (off - a + len) buf) = a + length buf"
    using le fit by simp
  have "ordered_within xs (off + len) (a + length buf)"
    using Cons.IH [OF rest] unfolding e .
  then show ?case
    unfolding x ordered_within.simps using le by blast
qed

lemma tiles_partitions: "tiles {} xs a buf \<Longrightarrow> partitions xs a (a + length buf)"
proof (induction xs arbitrary: a buf)
  case Nil
  then show ?case by simp
next
  case (Cons x xs)
  obtain off len where x: "x = (off, len)" by (cases x)
  have "a \<le> off \<and> off - a + len \<le> length buf \<and> set (take (off - a) buf) \<subseteq> {}
    \<and> tiles {} xs (off + len) (drop (off - a + len) buf)"
    using Cons.prems unfolding x by (simp only: tiles.simps)
  then have le: "a \<le> off" and fit: "off - a + len \<le> length buf"
    and gap: "set (take (off - a) buf) \<subseteq> {}"
    and rest: "tiles {} xs (off + len) (drop (off - a + len) buf)"
    by blast+
  from gap have "take (off - a) buf = []" by simp
  then have "off - a = 0 \<or> buf = []" by simp
  with fit le have eq: "off = a" by auto
  have e: "off + len + length (drop (off - a + len) buf) = a + len + (length buf - len)"
    using le fit by simp
  have f: "a + len + (length buf - len) = a + length buf"
    using fit eq by simp
  have "partitions xs (off + len) (a + length buf)"
    using Cons.IH [OF rest] unfolding e f .
  then have "partitions xs (a + len) (a + length buf)"
    unfolding eq .
  then show ?case
    unfolding x partitions.simps using eq by blast
qed

lemma ordered_within_end: "ordered_within ys c b \<Longrightarrow> c \<le> b"
proof (induction ys arbitrary: c)
  case Nil
  then show ?case by simp
next
  case (Cons y ys)
  obtain off len where "y = (off, len)" by (cases y)
  with Cons.prems have "c \<le> off" "ordered_within ys (off + len) b" by simp_all
  with Cons.IH [of "off + len"] show ?case by simp
qed

lemma ordered_within_bounds:
  "ordered_within xs a b \<Longrightarrow> (off, len) \<in> set xs \<Longrightarrow> a \<le> off \<and> off + len \<le> b"
proof (induction xs arbitrary: a)
  case Nil
  then show ?case by simp
next
  case (Cons x xs)
  obtain off' len' where x: "x = (off', len')" by (cases x)
  from Cons.prems(1) x have le: "a \<le> off'" and rest: "ordered_within xs (off' + len') b"
    by simp_all
  show ?case
  proof (cases "(off, len) = x")
    case True
    with x le ordered_within_end [OF rest] show ?thesis by simp
  next
    case False
    with Cons.prems(2) have "(off, len) \<in> set xs" by simp
    from Cons.IH [OF rest this] le show ?thesis by simp
  qed
qed

lemma ordered_within_sum: "ordered_within xs a b \<Longrightarrow> a + sum_list (map snd xs) \<le> b"
proof (induction xs arbitrary: a)
  case Nil
  then show ?case by simp
next
  case (Cons x xs)
  obtain off len where x: "x = (off, len)" by (cases x)
  from Cons.prems x have "a \<le> off" "ordered_within xs (off + len) b" by simp_all
  with Cons.IH [of "off + len"] show ?case using x by simp
qed

lemma partitions_sum: "partitions xs a b \<Longrightarrow> a + sum_list (map snd xs) = b"
proof (induction xs arbitrary: a)
  case Nil
  then show ?case by simp
next
  case (Cons x xs)
  obtain off len where x: "x = (off, len)" by (cases x)
  from Cons.prems x have "off = a" "partitions xs (a + len) b" by simp_all
  with Cons.IH [of "a + len"] show ?case using x by simp
qed

lemma spans_append: "spans (es @ es') = spans es @ spans es'"
  by (simp add: spans_def)

lemma spans_paragraph:
  "spans [ParagraphElem (buildParagraphElement p ls)] = map leaf_span ls"
  by (simp add: spans_def buildParagraphElement_def Let_def)

lemma para_leaves_build: "para_leaves (buildParagraphElement p ls) = ls"
  by (simp add: buildParagraphElement_def Let_def)

section \<open>Layout of table cells\<close>

lemma tiles_snoc_leaf:
  assumes "tiles G (sp @ leaf_spans ls) 0 b" and "leaf_span l = (length b, length t)"
  shows "tiles G (sp @ leaf_spans (ls @ [l])) 0 (b @ t)"
proof -
  have "tiles G ((sp @ leaf_spans ls) @ [(length b, length t)]) 0 (b @ t)"
    using assms(1) by (rule tiles_snoc)
  then show ?thesis using assms(2) by (simp add: leaf_spans_def)
qed

lemma processTableCell_run_cursor:
  assumes "processTableCell_run r pe s = (pe', s')" and "currentOffset s = length (content s)"
  shows "currentOffset s' = length (content s') \<and> elements s' = elements s"
  using assms by (cases r) (auto split: if_splits)

lemma processTableCell_run_tiles:
  assumes r: "processTableCell_run r pe s = (pe', s')"
    and c: "currentOffset s = length (content s)"
    and t: "tiles G (sp @ leaf_spans pe) 0 (content s)"
  shows "tiles G (sp @ leaf_spans pe') 0 (content s')"
proof (cases r)
  case (Text x)
  with r have "pe' = pe @ [ContentEl (currentOffset s) (length (text_str x)) (buildContentAttrs x)]"
    and "content s' = content s @ text_str x" by auto
  then show ?thesis using tiles_snoc_leaf [OF t, of _ "text_str x"] c by simp
next
  case Tab
  with r have "pe' = pe @ [TabEl (currentOffset s) 1]" and "content s' = content s @ [0x09]"
    by auto
  then show ?thesis using tiles_snoc_leaf [OF t, of _ "[0x09]"] c by simp
next
  case (Image imageData w h)
  show ?thesis
  proof (cases "truthy_str imageData")
    case True
    with r Image have "pe' = pe @ [ImageEl (currentOffset s) 1 (toString_opt imageData) w h]"
      and "content s' = content s @ [0xFFFC]" by auto
    then show ?thesis using tiles_snoc_leaf [OF t, of _ "[0xFFFC]"] c by simp
  next
    case False
    with r Image t show ?thesis by auto
  qed
next
  case Break
  with r t show ?thesis by auto
next
  case PageBreak
  with r t show ?thesis by auto
next
  case (FootnoteRef footnoteNum footnoteText)
  with r have "pe' = pe @ [ContentEl (currentOffset s) (length footnoteNum) superscriptAttrs]"
    and "content s' = content s @ footnoteNum" by auto
  then show ?thesis using tiles_snoc_leaf [OF t, of _ footnoteNum] c by simp
qed

lemma processTableCell_runs_cursor:
  assumes "processTableCell_runs rs pe s = (pe', s')" and "currentOffset s = length (content s)"
  shows "currentOffset s' = length (content s') \<and> elements s' = elements s"
  using assms
proof (induction rs arbitrary: pe s)
  case Nil
  then show ?case by simp
next
  case (Cons r rs)
  obtain pe1 s1 where step: "processTableCell_run r pe s = (pe1, s1)"
    by (cases "processTableCell_run r pe s")
  note c1 = processTableCell_run_cursor [OF step Cons.prems(2)]
  from Cons.prems(1) step have "processTableCell_runs rs pe1 s1 = (pe', s')" by simp
  from Cons.IH [OF this] c1 show ?case by simp
qed

lemma processTableCell_runs_tiles:
  assumes "processTableCell_runs rs pe s = (pe', s')"
    and "currentOffset s = length (content s)"
    and "tiles G (sp @ leaf_spans pe) 0 (content s)"
  shows "tiles G (sp @ leaf_spans pe') 0 (content s')"
  using assms
proof (induction rs arbitrary: pe s)
  case Nil
  then show ?case by simp
next
  case (Cons r rs)
  obtain pe1 s1 where step: "processTableCell_run r pe s = (pe1, s1)"
    by (cases "processTableCell_run r pe s")
  note c1 = processTableCell_run_cursor [OF step Cons.prems(2)]
  note t1 = processTableCell_run_tiles [OF step Cons.prems(2) Cons.prems(3)]
  from Cons.prems(1) step have "processTableCell_runs rs pe1 s1 = (pe', s')" by simp
  from Cons.IH [OF this _ t1] c1 show ?case by simp
qed

text \<open>One cell paragraph: the runs, the placeholder, and the newline when more follow.\<close>

lemma processTableCell_paragraphs_Cons:
  assumes "processTableCell_runs (runs p) [] s = (pe1, s1)"
  shows "processTableCell_paragraphs (p # ps) ces s =
     processTableCell_paragraphs ps
       (ces @ [buildParagraphElement p
                 (if pe1 = [] then [ContentEl (currentOffset s1) 1 defaultContentAttrs] else pe1)])
       ((if pe1 = [] then s1\<lparr>content := content s1 @ [0x20], currentOffset := currentOffset s1 + 1\<rparr>
         else s1)
        \<lparr>content := content (if pe1 = []
                      then s1\<lparr>content := content s1 @ [0x20], currentOffset := currentOffset s1 + 1\<rparr>
                      else s1) @ (if ps \<noteq> [] then [0x0A] else []),
         currentOffset := currentOffset (if pe1 = []
                      then s1\<lparr>content := content s1 @ [0x20], currentOffset := currentOffset s1 + 1\<rparr>
                      else s1) + (if ps \<noteq> [] then 1 else 0)\<rparr>)"
  using assms by (simp add: Let_def)

lemma para_spans_snoc:
  "para_spans (ces @ [buildParagraphElement p ls]) = para_spans ces @ leaf_spans ls"
  by (simp add: para_spans_def leaf_spans_def para_leaves_build)

lemma processTableCell_paragraphs_cursor:
  assumes "processTableCell_paragraphs ps ces s = (ces', s')"
    and "currentOffset s = length (content s)"
  shows "currentOffset s' = length (content s') \<and> elements s' = elements s"
  using assms
proof (induction ps arbitrary: ces s)
  case Nil
  then show ?case by simp
next
  case (Cons p ps)
  obtain pe1 s1 where runs: "processTableCell_runs (runs p) [] s = (pe1, s1)"
    by (cases "processTableCell_runs (runs p) [] s")
  note c1 = processTableCell_runs_cursor [OF runs Cons.prems(2)]
  note eq = Cons.prems(1) [unfolded processTableCell_paragraphs_Cons [OF runs]]
  from Cons.IH [OF eq] c1 show ?case by simp
qed

lemma processTableCell_paragraphs_tiles:
  assumes "processTableCell_paragraphs ps ces s = (ces', s')"
    and "currentOffset s = length (content s)"
    and "length ps \<le> 1 \<or> 0x0A \<in> G"
    and "tiles G (sp @ para_spans ces) 0 (content s)"
  shows "tiles G (sp @ para_spans ces') 0 (content s')"
  using assms
proof (induction ps arbitrary: ces s)
  case Nil
  then show ?case by simp
next
  case (Cons p ps)
  obtain pe1 s1 where runs: "processTableCell_runs (runs p) [] s = (pe1, s1)"
    by (cases "processTableCell_runs (runs p) [] s")
  note c1 = processTableCell_runs_cursor [OF runs Cons.prems(2)]
  have "tiles G ((sp @ para_spans ces) @ leaf_spans []) 0 (content s)"
    using Cons.prems(4) by (simp add: leaf_spans_def)
  from processTableCell_runs_tiles [OF runs Cons.prems(2) this]
  have t1: "tiles G ((sp @ para_spans ces) @ leaf_spans pe1) 0 (content s1)" .
  define pe2 where "pe2 = (if pe1 = [] then [ContentEl (currentOffset s1) 1 defaultContentAttrs] else pe1)"
  define s2 where "s2 = (if pe1 = []
      then s1\<lparr>content := content s1 @ [0x20], currentOffset := currentOffset s1 + 1\<rparr> else s1)"
  define s3 where "s3 = s2\<lparr>content := content s2 @ (if ps \<noteq> [] then [0x0A] else []),
         currentOffset := currentOffset s2 + (if ps \<noteq> [] then 1 else 0)\<rparr>"
  have c2: "currentOffset s2 = length (content s2)" using c1 by (simp add: s2_def)
  have t2: "tiles G ((sp @ para_spans ces) @ leaf_spans pe2) 0 (content s2)"
  proof (cases "pe1 = []")
    case True
    have "tiles G ((sp @ para_spans ces)
        @ leaf_spans ([] @ [ContentEl (currentOffset s1) 1 defaultContentAttrs])) 0 (content s1 @ [0x20])"
      using t1 True c1 by (intro tiles_snoc_leaf) simp_all
    then show ?thesis using True by (simp add: pe2_def s2_def)
  next
    case False
    then show ?thesis using t1 by (simp add: pe2_def s2_def)
  qed
  have c3: "currentOffset s3 = length (content s3)" using c2 by (simp add: s3_def)
  have g: "ps \<noteq> [] \<Longrightarrow> 0x0A \<in> G" using Cons.prems(3) by (cases ps) auto
  have t3: "tiles G (sp @ para_spans (ces @ [buildParagraphElement p pe2])) 0 (content s3)"
  proof (cases "ps = []")
    case True
    then show ?thesis using t2 by (simp add: s3_def para_spans_snoc)
  next
    case False
    have "tiles G ((sp @ para_spans ces) @ leaf_spans pe2) 0 (content s2 @ [0x0A])"
      using t2 g [OF False] by (intro tiles_gap_snoc) simp_all
    then show ?thesis using False by (simp add: s3_def para_spans_snoc)
  qed
  have eq: "processTableCell_paragraphs ps (ces @ [buildParagraphElement p pe2]) s3 = (ces', s')"
    using Cons.prems(1) unfolding processTableCell_paragraphs_Cons [OF runs] pe2_def s2_def s3_def .
  have l: "length ps \<le> 1 \<or> 0x0A \<in> G" using Cons.prems(3) by auto
  from Cons.IH [OF eq c3 l t3] show ?case .
qed

lemma processTableCell_cursor:
  assumes "processTableCell c s = (cc, s')" and "currentOffset s = length (content s)"
  shows "currentOffset s' = length (content s') \<and> elements s' = elements s"
proof -
  obtain ces s1 where ps: "processTableCell_paragraphs (paragraphs c) [] s = (ces, s1)"
    by (cases "processTableCell_paragraphs (paragraphs c) [] s")
  note c1 = processTableCell_paragraphs_cursor [OF ps assms(2)]
  from assms(1) ps c1 show ?thesis
    by (auto simp add: processTableCell_def split: if_splits)
qed

lemma processTableCell_tiles:
  assumes "processTableCell c s = (cc, s')" and "currentOffset s = length (content s)"
    and "length (paragraphs c) \<le> 1 \<or> 0x0A \<in> G"
    and "tiles G sp 0 (content s)"
  shows "tiles G (sp @ para_spans cc) 0 (content s')"
proof -
  obtain ces s1 where ps: "processTableCell_paragraphs (paragraphs c) [] s = (ces, s1)"
    by (cases "processTableCell_paragraphs (paragraphs c) [] s")
  note c1 = processTableCell_paragraphs_cursor [OF ps assms(2)]
  have "tiles G (sp @ para_spans []) 0 (content s)"
    using assms(4) by (simp add: para_spans_def)
  from processTableCell_paragraphs_tiles [OF ps assms(2) assms(3) this]
  have t1: "tiles G (sp @ para_spans ces) 0 (content s1)" .
  show ?thesis
  proof (cases "ces = []")
    case True
    then have "tiles G sp 0 (content s1)" using t1 by (simp add: para_spans_def)
    then have "tiles G (sp @ [(length (content s1), length [0x20 :: jschar])]) 0 (content s1 @ [0x20])"
      by (rule tiles_snoc)
    then show ?thesis
      using assms(1) ps True c1
      by (auto simp add: processTableCell_def para_spans_def placeholderParagraph_def)
  next
    case False
    then show ?thesis
      using assms(1) ps t1 by (auto simp add: processTableCell_def)
  qed
qed

section \<open>Layout of tables\<close>

lemma cell_spans_snoc: "cell_spans (ces @ [CellEl a cc]) = cell_spans ces @ para_spans cc"
  by (simp add: cell_spans_def para_spans_def)

lemma row_spans_snoc: "row_spans (res @ [RowEl n ces]) = row_spans res @ cell_spans ces"
  by (simp add: row_spans_def cell_spans_def)

lemma spans_table: "spans (es @ [TableEl n w b res]) = spans es @ row_spans res"
  by (simp add: spans_def row_spans_def)

lemma processTable_cell_cursor:
  assumes "processTable_cell c ces s = (ces', s')" and "currentOffset s = length (content s)"
  shows "currentOffset s' = length (content s') \<and> elements s' = elements s"
proof (cases "vMergeContinue c")
  case True
  with assms show ?thesis by (simp add: processTable_cell_def)
next
  case False
  obtain cc s1 where cell: "processTableCell c s = (cc, s1)"
    by (cases "processTableCell c s")
  from assms(1) False cell have "s' = s1" by (simp add: processTable_cell_def)
  with processTableCell_cursor [OF cell assms(2)] show ?thesis by simp
qed

lemma processTable_cell_tiles:
  assumes "processTable_cell c ces s = (ces', s')" and "currentOffset s = length (content s)"
    and "0x0A \<in> G \<or> vMergeContinue c \<or> length (paragraphs c) \<le> 1"
    and "tiles G (sp @ cell_spans ces) 0 (content s)"
  shows "tiles G (sp @ cell_spans ces') 0 (content s')"
proof (cases "vMergeContinue c")
  case True
  with assms show ?thesis by (simp add: processTable_cell_def)
next
  case False
  obtain cc s1 where cell: "processTableCell c s = (cc, s1)"
    by (cases "processTableCell c s")
  from assms(1) False cell have r: "s' = s1" "ces' = ces @ [CellEl (cellAttrs c) cc]"
    by (simp_all add: processTable_cell_def)
  have "length (paragraphs c) \<le> 1 \<or> 0x0A \<in> G" using assms(3) False by auto
  from processTableCell_tiles [OF cell assms(2) this assms(4)]
  show ?thesis using r by (simp add: cell_spans_snoc)
qed

lemma processTable_cells_cursor:
  assumes "processTable_cells cs ces s = (ces', s')" and "currentOffset s = length (content s)"
  shows "currentOffset s' = length (content s') \<and> elements s' = elements s"
  using assms
proof (induction cs arbitrary: ces s)
  case Nil
  then show ?case by simp
next
  case (Cons c cs)
  obtain ces1 s1 where step: "processTable_cell c ces s = (ces1, s1)"
    by (cases "processTable_cell c ces s")
  note c1 = processTable_cell_cursor [OF step Cons.prems(2)]
  from Cons.prems(1) step have "processTable_cells cs ces1 s1 = (ces', s')" by simp
  from Cons.IH [OF this] c1 show ?case by simp
qed

lemma processTable_cells_tiles:
  assumes "processTable_cells cs ces s = (ces', s')" and "currentOffset s = length (content s)"
    and "0x0A \<in> G \<or> list_all gapfree_cell cs"
    and "tiles G (sp @ cell_spans ces) 0 (content s)"
  shows "tiles G (sp @ cell_spans ces') 0 (content s')"
  using assms
proof (induction cs arbitrary: ces s)
  case Nil
  then show ?case by simp
next
  case (Cons c cs)
  obtain ces1 s1 where step: "processTable_cell c ces s = (ces1, s1)"
    by (cases "processTable_cell c ces s")
  note c1 = processTable_cell_cursor [OF step Cons.prems(2)]
  have g: "0x0A \<in> G \<or> vMergeContinue c \<or> length (paragraphs c) \<le> 1"
    using Cons.prems(3) by (auto simp add: gapfree_cell_def)
  note t1 = processTable_cell_tiles [OF step Cons.prems(2) g Cons.prems(4)]
  have g': "0x0A \<in> G \<or> list_all gapfree_cell cs" using Cons.prems(3) by auto
  from Cons.prems(1) step have "processTable_cells cs ces1 s1 = (ces', s')" by simp
  from Cons.IH [OF this _ g' t1] c1 show ?case by simp
qed

lemma processTable_rows_cursor:
  assumes "processTable_rows rs i res s = (res', s')" and "currentOffset s = length (content s)"
  shows "currentOffset s' = length (content s') \<and> elements s' = elements s"
  using assms
proof (induction rs arbitrary: i res s)
  case Nil
  then show ?case by simp
next
  case (Cons r rs)
  obtain ces1 s1 where step: "processTable_cells (cells r) [] s = (ces1, s1)"
    by (cases "processTable_cells (cells r) [] s")
  note c1 = processTable_cells_cursor [OF step Cons.prems(2)]
  from Cons.prems(1) step
  have "processTable_rows rs (i + 1) (res @ [RowEl (i + 1) ces1]) s1 = (res', s')" by simp
  from Cons.IH [OF this] c1 show ?case by simp
qed

lemma processTable_rows_tiles:
  assumes "processTable_rows rs i res s = (res', s')" and "currentOffset s = length (content s)"
    and "0x0A \<in> G \<or> list_all gapfree_cell (concat (map cells rs))"
    and "tiles G (sp @ row_spans res) 0 (content s)"
  shows "tiles G (sp @ row_spans res') 0 (content s')"
  using assms
proof (induction rs arbitrary: i res s)
  case Nil
  then show ?case by simp
next
  case (Cons r rs)
  obtain ces1 s1 where step: "processTable_cells (cells r) [] s = (ces1, s1)"
    by (cases "processTable_cells (cells r) [] s")
  note c1 = processTable_cells_cursor [OF step Cons.prems(2)]
  have g: "0x0A \<in> G \<or> list_all gapfree_cell (cells r)"
    and g': "0x0A \<in> G \<or> list_all gapfree_cell (concat (map cells rs))"
    using Cons.prems(3) by auto
  have "tiles G ((sp @ row_spans res) @ cell_spans []) 0 (content s)"
    using Cons.prems(4) by (simp add: cell_spans_def)
  from processTable_cells_tiles [OF step Cons.prems(2) g this]
  have t1: "tiles G (sp @ row_spans (res @ [RowEl (i + 1) ces1])) 0 (content s1)"
    by (simp add: row_spans_snoc)
  from Cons.prems(1) step
  have "processTable_rows rs (i + 1) (res @ [RowEl (i + 1) ces1]) s1 = (res', s')" by simp
  from Cons.IH [OF this _ g' t1] c1 show ?case by simp
qed

lemma processTable_cursor:
  assumes "currentOffset s = length (content s)"
  shows "currentOffset (processTable t s) = length (content (processTable t s))"
proof -
  obtain res s1 where rows: "processTable_rows (rows t) 0 [] s = (res, s1)"
    by (cases "processTable_rows (rows t) 0 [] s")
  from processTable_rows_cursor [OF rows assms] rows show ?thesis
    by (simp add: processTable_def)
qed

lemma gapfree_cells_no_footnotes:
  "list_all gapfree_cell cs \<Longrightarrow>
     concat (map cellFootnotes (filter (\<lambda>c. \<not> vMergeContinue c) cs)) = []"
  by (induction cs) (auto simp add: gapfree_cell_def)

lemma processTable_layout:
  assumes "layout_inv G s" and "0x0A \<in> G \<or> gapfree_block (Table t)"
  shows "layout_inv G (processTable t s)"
proof -
  from assms(1) have c: "currentOffset s = length (content s)"
    and ti: "tiles G (spans (elements s)) 0 (content s)"
    and f: "0x0A \<in> G \<or> collectedFootnotes s = []"
    by (simp_all add: layout_inv_def)
  obtain res s1 where rows: "processTable_rows (rows t) 0 [] s = (res, s1)"
    by (cases "processTable_rows (rows t) 0 [] s")
  note c1 = processTable_rows_cursor [OF rows c]
  have g: "0x0A \<in> G \<or> list_all gapfree_cell (concat (map cells (rows t)))"
    using assms(2) by simp
  have "tiles G (spans (elements s) @ row_spans []) 0 (content s)"
    using ti by (simp add: row_spans_def)
  from processTable_rows_tiles [OF rows c g this]
  have t1: "tiles G (spans (elements s) @ row_spans res) 0 (content s1)" .
  have "0x0A \<in> G \<or> collectedFootnotes (processTable t s) = []"
    using f g gapfree_cells_no_footnotes [of "concat (map cells (rows t))"]
    by (auto simp add: processTable_footnotes tableFootnotes_def)
  then show ?thesis
    using rows c1 t1 by (simp add: layout_inv_def processTable_def spans_table)
qed

section \<open>Layout of the footnote section\<close>

lemma spans_Cons_paragraph:
  "spans (ParagraphElem (ParagraphEl a ls) # es) = leaf_spans ls @ spans es"
  by (simp add: spans_def leaf_spans_def)

lemma footnoteParagraphs_tiles:
  assumes "0x0A \<in> G \<or> fs = []" and "tiles G sp 0 b"
  shows "tiles G (sp @ spans (footnoteParagraphs (length b) fs)) 0
           (b @ concat (map footnoteEntryText fs))"
  using assms
proof (induction fs arbitrary: sp b)
  case Nil
  then show ?case by (simp add: spans_def)
next
  case (Cons f fs)
  then have nl: "0x0A \<in> G" by simp
  let ?numPart = "number f @ ascii ''. ''"
  have t1: "tiles G sp 0 (b @ [0x0A])"
    using Cons.prems(2) nl by (intro tiles_gap_snoc) simp_all
  have t2: "tiles G (sp @ [(length (b @ [0x0A]), length ?numPart)]) 0 ((b @ [0x0A]) @ ?numPart)"
    using t1 by (rule tiles_snoc)
  have t3: "tiles G ((sp @ [(length (b @ [0x0A]), length ?numPart)])
                @ [(length ((b @ [0x0A]) @ ?numPart), length (body f))]) 0
              (((b @ [0x0A]) @ ?numPart) @ body f)"
    using t2 by (rule tiles_snoc)
  have e: "((b @ [0x0A]) @ ?numPart) @ body f = b @ footnoteEntryText f"
    by (simp add: footnoteEntryText_def)
  have l: "length (b @ footnoteEntryText f) = length b + length (footnoteEntryText f)" by simp
  have "0x0A \<in> G \<or> fs = []" using nl by simp
  from Cons.IH [OF this t3 [unfolded e]]
  have "tiles G (((sp @ [(length (b @ [0x0A]), length ?numPart)])
                @ [(length ((b @ [0x0A]) @ ?numPart), length (body f))])
              @ spans (footnoteParagraphs (length b + length (footnoteEntryText f)) fs)) 0
          ((b @ footnoteEntryText f) @ concat (map footnoteEntryText fs))"
    unfolding l .
  then show ?case
    by (simp add: spans_Cons_paragraph leaf_spans_def ascii_def add.assoc)
qed

lemma appendFootnotesSection_cursor:
  assumes "currentOffset s = length (content s)"
  shows "currentOffset (appendFootnotesSection s) = length (content (appendFootnotesSection s))"
  using assms by (simp add: appendFootnotesSection_fields)

lemma appendFootnotesSection_layout:
  assumes "layout_inv G s"
  shows "layout_inv G (appendFootnotesSection s)"
proof -
  from assms have c: "currentOffset s = length (content s)"
    and ti: "tiles G (spans (elements s)) 0 (content s)"
    and f: "0x0A \<in> G \<or> collectedFootnotes s = []"
    by (simp_all add: layout_inv_def)
  let ?b = "content s"
  have t1: "tiles G (spans (elements s) @ [(length ?b, length [0x0A :: jschar])]) 0 (?b @ [0x0A])"
    using ti by (rule tiles_snoc)
  have t2: "tiles G ((spans (elements s) @ [(length ?b, length [0x0A :: jschar])])
               @ [(length (?b @ [0x0A]), length separator)]) 0 ((?b @ [0x0A]) @ separator)"
    using t1 by (rule tiles_snoc)
  have l: "length ((?b @ [0x0A]) @ separator) = length ?b + 21"
    by (simp add: separator_def)
  from footnoteParagraphs_tiles [OF f t2]
  have "tiles G (((spans (elements s) @ [(length ?b, length [0x0A :: jschar])])
               @ [(length (?b @ [0x0A]), length separator)])
             @ spans (footnoteParagraphs (length ?b + 21) (collectedFootnotes s))) 0
          (((?b @ [0x0A]) @ separator) @ concat (map footnoteEntryText (collectedFootnotes s)))"
    unfolding l .
  then have "tiles G (spans (elements s)
                @ spans (footnoteSectionElements (currentOffset s) (collectedFootnotes s))) 0
              (content s @ footnoteSectionText (collectedFootnotes s))"
    by (simp add: c footnoteSectionElements_def footnoteSectionText_def spans_Cons_paragraph
        leaf_spans_def separator_def)
  then show ?thesis
    using c f by (simp add: layout_inv_def appendFootnotesSection_fields spans_append)
qed

section \<open>Layout of body paragraphs\<close>

lemma processParagraph_run_Inr_cursor:
  assumes "processParagraph_run p r pc pe s = Inr (pc', pe', s')"
    and "currentOffset s = length (content s) + length (concat pc)"
  shows "currentOffset s' = length (content s') + length (concat pc')
         \<and> content s' = content s \<and> elements s' = elements s"
  using assms by (cases r) (auto simp add: Let_def split: if_splits)

lemma tiles_snoc_leaf_pieces:
  assumes "tiles G (sp @ leaf_spans pe) 0 (b @ concat pc)"
    and "leaf_span l = (length b + length (concat pc), length t)"
  shows "tiles G (sp @ leaf_spans (pe @ [l])) 0 (b @ concat (pc @ [t]))"
  using tiles_snoc_leaf [OF assms(1), of l t] assms(2) by simp

lemma processParagraph_run_Inr_tiles:
  assumes r: "processParagraph_run p r pc pe s = Inr (pc', pe', s')"
    and c: "currentOffset s = length (content s) + length (concat pc)"
    and g: "0x0A \<in> G \<or> r \<noteq> Break"
    and t: "tiles G (sp @ leaf_spans pe) 0 (content s @ concat pc)"
  shows "tiles G (sp @ leaf_spans pe') 0 (content s' @ concat pc')"
proof (cases r)
  case (Text x)
  with r have "pe' = pe @ [ContentEl (currentOffset s) (length (text_str x)) (buildContentAttrs x)]"
    and "pc' = pc @ [text_str x]" and "content s' = content s" by auto
  then show ?thesis using tiles_snoc_leaf_pieces [OF t, of _ "text_str x"] c by simp
next
  case Tab
  with r have "pe' = pe @ [TabEl (currentOffset s) 1]" and "pc' = pc @ [[0x09]]"
    and "content s' = content s" by auto
  then show ?thesis using tiles_snoc_leaf_pieces [OF t, of _ "[0x09]"] c by simp
next
  case (Image imageData w h)
  show ?thesis
  proof (cases "truthy_str imageData")
    case True
    with r Image have "pe' = pe @ [ImageEl (currentOffset s) 1 (toString_opt imageData) w h]"
      and "pc' = pc @ [[0xFFFC]]" and "content s' = content s" by auto
    then show ?thesis using tiles_snoc_leaf_pieces [OF t, of _ "[0xFFFC]"] c by simp
  next
    case False
    with r Image t show ?thesis by auto
  qed
next
  case Break
  with g have nl: "0x0A \<in> G" by simp
  from r Break have e: "pe' = pe" "pc' = pc @ [[0x0A]]" "content s' = content s" by auto
  have "tiles G (sp @ leaf_spans pe) 0 ((content s @ concat pc) @ [0x0A])"
    using tiles_gap_snoc [OF t, of "[0x0A]"] nl by simp
  then show ?thesis using e by simp
next
  case PageBreak
  with r show ?thesis by (simp add: Let_def)
next
  case (FootnoteRef footnoteNum footnoteText)
  with r have "pe' = pe @ [ContentEl (currentOffset s) (length footnoteNum) superscriptAttrs]"
    and "pc' = pc @ [footnoteNum]" and "content s' = content s" by auto
  then show ?thesis using tiles_snoc_leaf_pieces [OF t, of _ footnoteNum] c by simp
qed

text \<open>The exit at a page break.\<close>

lemma processParagraph_run_Inl:
  assumes "processParagraph_run p r pc pe s = Inl s'"
  shows "r = PageBreak"
  using assms by (cases r) (auto split: if_splits)

lemma processParagraph_run_PageBreak_cursor:
  assumes "processParagraph_run p PageBreak pc pe s = Inl s'"
    and "currentOffset s = length (content s) + length (concat pc)"
  shows "currentOffset s' = length (content s')"
proof -
  define s2 where "s2 = (if 0 < length pe
      then s\<lparr>content := content s @ concat pc,
             elements := elements s @ [ParagraphElem (buildParagraphElement p pe)]\<rparr>
      else s\<lparr>content := content s @ concat pc\<rparr>)"
  have c2: "currentOffset s2 = length (content s2)"
    using assms(2) by (simp add: s2_def)
  have "s' = (if 0 < length (collectedFootnotes s2)
              then (appendFootnotesSection s2)\<lparr>collectedFootnotes := []\<rparr> else s2)
             \<lparr>elements := elements (if 0 < length (collectedFootnotes s2)
              then (appendFootnotesSection s2)\<lparr>collectedFootnotes := []\<rparr> else s2)
                @ [PageBreakEl]\<rparr>"
    using assms(1) by (auto simp add: Let_def s2_def)
  then show ?thesis
    using c2 appendFootnotesSection_cursor [OF c2] by simp
qed

lemma layout_inv_clear:
  "layout_inv G s \<Longrightarrow> layout_inv G (s\<lparr>collectedFootnotes := []\<rparr>)"
  by (simp add: layout_inv_def)

lemma layout_inv_pageBreak:
  "layout_inv G s \<Longrightarrow> layout_inv G (s\<lparr>elements := elements s @ [PageBreakEl]\<rparr>)"
  by (simp add: layout_inv_def spans_def)

lemma processParagraph_run_PageBreak_layout:
  assumes "processParagraph_run p PageBreak pc pe s = Inl s'"
    and "currentOffset s = length (content s) + length (concat pc)"
    and "0x0A \<in> G \<or> collectedFootnotes s = []"
    and "tiles G (spans (elements s) @ leaf_spans pe) 0 (content s @ concat pc)"
  shows "layout_inv G s'"
proof -
  define s2 where "s2 = (if 0 < length pe
      then s\<lparr>content := content s @ concat pc,
             elements := elements s @ [ParagraphElem (buildParagraphElement p pe)]\<rparr>
      else s\<lparr>content := content s @ concat pc\<rparr>)"
  have "tiles G (spans (elements s2)) 0 (content s2)"
    using assms(4) by (auto simp add: s2_def spans_append spans_paragraph leaf_spans_def)
  then have i2: "layout_inv G s2"
    using assms(2) assms(3) by (simp add: layout_inv_def s2_def)
  define s3 where "s3 = (if 0 < length (collectedFootnotes s2)
              then (appendFootnotesSection s2)\<lparr>collectedFootnotes := []\<rparr> else s2)"
  have i3: "layout_inv G s3"
    using i2 appendFootnotesSection_layout [OF i2, THEN layout_inv_clear]
    by (simp add: s3_def)
  have "s' = s3\<lparr>elements := elements s3 @ [PageBreakEl]\<rparr>"
    using assms(1) by (auto simp add: Let_def s2_def s3_def)
  then show ?thesis using layout_inv_pageBreak [OF i3] by simp
qed

lemma processParagraph_runs_cursor:
  assumes "currentOffset s = length (content s) + length (concat pc)"
  shows "(case processParagraph_runs p rs pc pe s of
            Inl s' \<Rightarrow> currentOffset s' = length (content s')
          | Inr (pc', pe', s') \<Rightarrow>
              currentOffset s' = length (content s') + length (concat pc'))"
  using assms
proof (induction rs arbitrary: pc pe s)
  case Nil
  then show ?case by simp
next
  case (Cons r rs)
  show ?case
  proof (cases "processParagraph_run p r pc pe s")
    case (Inl s')
    then have "r = PageBreak" by (rule processParagraph_run_Inl)
    with Inl processParagraph_run_PageBreak_cursor [OF _ Cons.prems] show ?thesis by simp
  next
    case (Inr x)
    obtain pc1 pe1 s1 where x: "x = (pc1, pe1, s1)" by (cases x)
    from processParagraph_run_Inr_cursor [OF Inr [unfolded x] Cons.prems]
    have "currentOffset s1 = length (content s1) + length (concat pc1)" by simp
    from Cons.IH [OF this] show ?thesis using Inr x by simp
  qed
qed

lemma processParagraph_finish_cursor:
  assumes "currentOffset s = length (content s) + length (concat pc)"
  shows "currentOffset (processParagraph_finish p pc pe s)
         = length (content (processParagraph_finish p pc pe s))"
  using assms by (simp add: processParagraph_finish_def)

lemma processParagraph_cursor:
  assumes "currentOffset s = length (content s)"
  shows "currentOffset (processParagraph p s) = length (content (processParagraph p s))"
proof -
  have "currentOffset s = length (content s) + length (concat ([] :: jsstring list))"
    using assms by simp
  from processParagraph_runs_cursor [OF this, of p "runs p" "[]"]
  show ?thesis
    by (auto simp add: processParagraph_def processParagraph_finish_cursor split: sum.splits)
qed

text \<open>
  The loop with the tiling: the pieces collected so far continue the buffer, and the
  elements collected so far continue the emitted pairs.
\<close>

lemma processParagraph_runs_layout:
  assumes "currentOffset s = length (content s) + length (concat pc)"
    and "0x0A \<in> G \<or> (Break \<notin> set rs \<and> collectedFootnotes s = [] \<and> runFootnotes rs = [])"
    and "tiles G (spans (elements s) @ leaf_spans pe) 0 (content s @ concat pc)"
  shows "(case processParagraph_runs p rs pc pe s of
            Inl s' \<Rightarrow> layout_inv G s'
          | Inr (pc', pe', s') \<Rightarrow>
              currentOffset s' = length (content s') + length (concat pc')
              \<and> tiles G (spans (elements s') @ leaf_spans pe') 0 (content s' @ concat pc')
              \<and> (0x0A \<in> G \<or> collectedFootnotes s' = []))"
  using assms
proof (induction rs arbitrary: pc pe s)
  case Nil
  then show ?case by auto
next
  case (Cons r rs)
  have fr: "runFootnotes (r # rs) = runFootnotes [r] @ runFootnotes rs"
    by (rule runFootnotes_Cons)
  show ?case
  proof (cases "processParagraph_run p r pc pe s")
    case (Inl s')
    then have pb: "r = PageBreak" by (rule processParagraph_run_Inl)
    have "0x0A \<in> G \<or> collectedFootnotes s = []" using Cons.prems(2) by auto
    from processParagraph_run_PageBreak_layout [OF Inl [unfolded pb] Cons.prems(1) this Cons.prems(3)]
    show ?thesis using Inl by simp
  next
    case (Inr x)
    obtain pc1 pe1 s1 where x: "x = (pc1, pe1, s1)" by (cases x)
    note step = Inr [unfolded x]
    have npb: "r \<noteq> PageBreak" using step by (auto simp add: Let_def)
    from processParagraph_run_Inr_cursor [OF step Cons.prems(1)]
    have c1: "currentOffset s1 = length (content s1) + length (concat pc1)"
      and e1: "elements s1 = elements s" by simp_all
    have g: "0x0A \<in> G \<or> r \<noteq> Break" using Cons.prems(2) by auto
    from processParagraph_run_Inr_tiles [OF step Cons.prems(1) g Cons.prems(3)]
    have t1: "tiles G (spans (elements s1) @ leaf_spans pe1) 0 (content s1 @ concat pc1)"
      using e1 by simp
    obtain pc2 pe2 s2 where "processParagraph_run p r pc pe s = Inr (pc2, pe2, s2)"
      and "collectedFootnotes s2 = collectedFootnotes s @ runFootnotes [r]"
      using processParagraph_run_Inr [OF npb] by blast
    with step have f1: "collectedFootnotes s1 = collectedFootnotes s @ runFootnotes [r]" by simp
    have g1: "0x0A \<in> G \<or> (Break \<notin> set rs \<and> collectedFootnotes s1 = [] \<and> runFootnotes rs = [])"
      using Cons.prems(2) f1 fr by auto
    from Cons.IH [OF c1 g1 t1] show ?thesis using step by simp
  qed
qed

lemma processParagraph_finish_layout:
  assumes "currentOffset s = length (content s) + length (concat pc)"
    and "tiles G (spans (elements s) @ leaf_spans pe) 0 (content s @ concat pc)"
    and "0x0A \<in> G \<or> collectedFootnotes s = []"
  shows "layout_inv G (processParagraph_finish p pc pe s)"
proof (cases "pc = []")
  case True
  have "tiles G (spans (elements s) @ leaf_spans (pe @ [ContentEl (currentOffset s) 1 defaultContentAttrs]))
          0 (content s @ [0x200B])"
    using assms(1) assms(2) True by (intro tiles_snoc_leaf) simp_all
  then show ?thesis
    using assms(1) assms(3) True
    by (simp add: layout_inv_def processParagraph_finish_def spans_append spans_paragraph
        leaf_spans_def)
next
  case False
  then show ?thesis
    using assms
    by (simp add: layout_inv_def processParagraph_finish_def spans_append spans_paragraph
        leaf_spans_def)
qed

lemma processParagraph_layout:
  assumes "layout_inv G s" and "0x0A \<in> G \<or> gapfree_block (Paragraph p)"
  shows "layout_inv G (processParagraph p s)"
proof -
  from assms(1) have c: "currentOffset s = length (content s) + length (concat ([] :: jsstring list))"
    and ti: "tiles G (spans (elements s) @ leaf_spans []) 0 (content s @ concat [])"
    and f: "0x0A \<in> G \<or> collectedFootnotes s = []"
    by (simp_all add: layout_inv_def leaf_spans_def)
  have g: "0x0A \<in> G \<or> (Break \<notin> set (runs p) \<and> collectedFootnotes s = []
             \<and> runFootnotes (runs p) = [])"
    using assms(2) f by auto
  from processParagraph_runs_layout [OF c g ti, of p]
  show ?thesis
    by (auto simp add: processParagraph_def processParagraph_finish_layout split: sum.splits)
qed

section \<open>Layout of the document\<close>

lemma processElements_cursor:
  assumes "currentOffset s = length (content s)"
  shows "currentOffset (processElements bs s) = length (content (processElements bs s))"
  using assms
proof (induction bs arbitrary: s)
  case Nil
  then show ?case by simp
next
  case (Cons b bs)
  have "currentOffset (processElement b s) = length (content (processElement b s))"
    using Cons.prems by (cases b) (simp_all add: processParagraph_cursor processTable_cursor)
  from Cons.IH [OF this] show ?case by simp
qed

lemma processElements_layout:
  assumes "layout_inv G s" and "0x0A \<in> G \<or> list_all gapfree_block bs"
  shows "layout_inv G (processElements bs s)"
  using assms
proof (induction bs arbitrary: s)
  case Nil
  then show ?case by simp
next
  case (Cons b bs)
  have g: "0x0A \<in> G \<or> gapfree_block b" and g': "0x0A \<in> G \<or> list_all gapfree_block bs"
    using Cons.prems(2) by auto
  have "layout_inv G (processElement b s)"
    using Cons.prems(1) g by (cases b) (simp_all add: processParagraph_layout processTable_layout)
  from Cons.IH [OF this g'] show ?case by simp
qed

lemma layout_inv_initial: "layout_inv G initial_state"
  by (simp add: layout_inv_def initial_state_def spans_def)

lemma generate_state_tiles:
  assumes "0x0A \<in> G \<or> gapfree d"
  shows "tiles G (spans (elements (generate_state d))) 0 (content (generate_state d))"
proof -
  define s1 where "s1 = processElements d initial_state"
  define s2 where "s2 = (if 0 < length (collectedFootnotes s1) then appendFootnotesSection s1 else s1)"
  have i1: "layout_inv G s1"
    unfolding s1_def using layout_inv_initial assms
    by (intro processElements_layout) (simp_all add: gapfree_def)
  have i2: "layout_inv G s2"
    using i1 appendFootnotesSection_layout [OF i1] by (simp add: s2_def)
  then have t2: "tiles G (spans (elements s2)) 0 (content s2)"
    by (simp add: layout_inv_def)
  have gs: "generate_state d =
      (if length (content s2) = 0
       then s2\<lparr>content := [0x200B],
               elements := elements s2 @ [ParagraphElem (placeholderParagraph 0)]\<rparr>
       else s2)"
    by (simp add: generate_state_def Let_def s1_def s2_def)
  show ?thesis
  proof (cases "content s2 = []")
    case True
    have "tiles G (spans (elements s2) @ [(length (content s2), length [0x200B :: jschar])])
            0 (content s2 @ [0x200B])"
      using t2 by (rule tiles_snoc)
    then show ?thesis
      using True by (simp add: gs spans_append spans_def placeholderParagraph_def)
  next
    case False
    then show ?thesis
      using t2 by (simp add: gs)
  qed
qed

section \<open>The cursor invariant\<close>

text \<open>
  C10.  If the cursor equals the buffer length before \<open>processParagraph\<close>,
  \<open>processTable\<close> or \<open>appendFootnotesSection\<close>, it does so after; inside a body
  paragraph the cursor is ahead of the buffer by exactly the pieces not yet appended, so
  the flush at a page break starts and ends with cursor and buffer length equal.  Hence
  after any sequence of blocks processed from the initial state (in particular between
  two consecutive blocks of a document) the cursor is the buffer length, and every
  content, tab and image element of the result ends within the final buffer.
\<close>

theorem cursor_is_buffer_length:
  "(currentOffset s = length (content s) \<longrightarrow>
      currentOffset (processParagraph p s) = length (content (processParagraph p s))
      \<and> currentOffset (processTable t s) = length (content (processTable t s))
      \<and> currentOffset (appendFootnotesSection s) = length (content (appendFootnotesSection s))
      \<and> (case processParagraph_runs p rs [] [] s of
            Inl s' \<Rightarrow> currentOffset s' = length (content s')
          | Inr (paraContent, paraElements, s') \<Rightarrow>
              currentOffset s' = length (content s') + length (concat paraContent)))
   \<and> (currentOffset s = length (content s) + length (concat paraContent) \<longrightarrow>
        currentOffset (appendFootnotesSection (s\<lparr>content := content s @ concat paraContent, elements := es\<rparr>))
        = length (content (appendFootnotesSection
            (s\<lparr>content := content s @ concat paraContent, elements := es\<rparr>))))
   \<and> currentOffset (processElements bs initial_state)
       = length (content (processElements bs initial_state))
   \<and> (\<forall>(off, len) \<in> set (spans (elements (generate_state d))).
         off + len \<le> length (content (generate_state d)))"
proof (intro conjI impI)
  assume c: "currentOffset s = length (content s)"
  show "currentOffset (processParagraph p s) = length (content (processParagraph p s))"
    using c by (rule processParagraph_cursor)
  show "currentOffset (processTable t s) = length (content (processTable t s))"
    using c by (rule processTable_cursor)
  show "currentOffset (appendFootnotesSection s) = length (content (appendFootnotesSection s))"
    using c by (rule appendFootnotesSection_cursor)
  have "currentOffset s = length (content s) + length (concat ([] :: jsstring list))"
    using c by simp
  then show "case processParagraph_runs p rs [] [] s of
            Inl s' \<Rightarrow> currentOffset s' = length (content s')
          | Inr (paraContent, paraElements, s') \<Rightarrow>
              currentOffset s' = length (content s') + length (concat paraContent)"
    by (rule processParagraph_runs_cursor)
next
  assume "currentOffset s = length (content s) + length (concat paraContent)"
  then show "currentOffset (appendFootnotesSection
        (s\<lparr>content := content s @ concat paraContent, elements := es\<rparr>))
        = length (content (appendFootnotesSection
            (s\<lparr>content := content s @ concat paraContent, elements := es\<rparr>)))"
    by (intro appendFootnotesSection_cursor) simp
next
  show "currentOffset (processElements bs initial_state)
       = length (content (processElements bs initial_state))"
    by (intro processElements_cursor) (simp add: initial_state_def)
next
  have "tiles {0x0A} (spans (elements (generate_state d))) 0 (content (generate_state d))"
    by (intro generate_state_tiles) simp
  then have "ordered_within (spans (elements (generate_state d))) 0
      (0 + length (content (generate_state d)))"
    by (rule tiles_ordered_within)
  then show "\<forall>(off, len) \<in> set (spans (elements (generate_state d))).
         off + len \<le> length (content (generate_state d))"
    using ordered_within_bounds by fastforce
qed

theorem cursor_is_buffer_length_witness:
  "currentOffset initial_state = length (content initial_state)
   \<and> currentOffset (processParagraph (plainParagraph [plainText ''ab'', Break]) initial_state) = 3
   \<and> length (content (processParagraph (plainParagraph [plainText ''ab'', Break]) initial_state)) = 3
   \<and> currentOffset (initial_state\<lparr>currentOffset := 2\<rparr>)
       = length (content (initial_state\<lparr>currentOffset := 2\<rparr>)) + length (concat [ascii ''ab''])
   \<and> currentOffset (appendFootnotesSection
         (initial_state\<lparr>currentOffset := 2, content := [] @ concat [ascii ''ab''], elements := []\<rparr>))
       = length (content (appendFootnotesSection
           (initial_state\<lparr>currentOffset := 2, content := [] @ concat [ascii ''ab''], elements := []\<rparr>)))
   \<and> (0, 2) \<in> set (spans (elements (generate_state
         [Paragraph (plainParagraph [plainText ''ab'', Break])])))
   \<and> 0 + 2 \<le> length (content (generate_state
         [Paragraph (plainParagraph [plainText ''ab'', Break])]))"
proof -
  let ?p = "plainParagraph [plainText ''ab'', Break]"
  let ?s = "initial_state\<lparr>currentOffset := 2\<rparr>"
  have i: "currentOffset initial_state = length (content initial_state)"
    by (simp add: initial_state_def)
  have j: "currentOffset ?s = length (content ?s) + length (concat [ascii ''ab''])"
    by (simp add: initial_state_def ascii_def)
  have 1: "currentOffset (processParagraph ?p initial_state)
        = length (content (processParagraph ?p initial_state))"
    using cursor_is_buffer_length [of initial_state ?p] i by blast
  have c: "content (processParagraph ?p initial_state) = ascii ''ab'' @ [0x0A]"
    by (simp add: processParagraph_def processParagraph_finish_def plainParagraph_def
        plainText_def initial_state_def)
  have "currentOffset (appendFootnotesSection
         (?s\<lparr>content := content ?s @ concat [ascii ''ab''], elements := []\<rparr>))
       = length (content (appendFootnotesSection
           (?s\<lparr>content := content ?s @ concat [ascii ''ab''], elements := []\<rparr>)))"
    using cursor_is_buffer_length [of ?s _ _ _ "[ascii ''ab'']" "[]"] j by blast
  then have 2: "currentOffset (appendFootnotesSection
         (initial_state\<lparr>currentOffset := 2, content := [] @ concat [ascii ''ab''], elements := []\<rparr>))
       = length (content (appendFootnotesSection
           (initial_state\<lparr>currentOffset := 2, content := [] @ concat [ascii ''ab''], elements := []\<rparr>)))"
    by (simp add: initial_state_def)
  have m: "(0, 2) \<in> set (spans (elements (generate_state [Paragraph ?p])))"
    by (simp add: generate_state_def processParagraph_def processParagraph_finish_def
        plainParagraph_def plainText_def initial_state_def spans_def buildParagraphElement_def
        ascii_def Let_def)
  have 3: "0 + 2 \<le> length (content (generate_state [Paragraph ?p]))"
    using cursor_is_buffer_length [of _ _ _ _ _ _ _ "[Paragraph ?p]"] m by fastforce
  have 4: "currentOffset (processParagraph ?p initial_state) = 3"
    and 5: "length (content (processParagraph ?p initial_state)) = 3"
    using 1 c by (simp_all add: ascii_def)
  show ?thesis using i j 2 m 3 4 5 by (intro conjI)
qed

section \<open>Elements and buffer\<close>

text \<open>
  C1 (as amended).  For every document the pairs of the emitted content, tab and image
  elements, in emission order, lie in the final buffer without overlap, each starting at
  or after the end of the one before, and every buffer character that no element covers
  is a newline (the newline of a line-break run, the newline between two paragraphs of a
  cell, or the newline before a footnote entry); so the lengths sum to at most the buffer
  length.  For a document without those (no line break in a body paragraph, no footnote
  reference, at most one paragraph in each rendered cell) the pairs partition the buffer
  with no gap and no overlap, and the lengths sum to the buffer length.
\<close>

theorem elements_tile_buffer:
  "tiles {0x0A} (spans (elements (generate_state d))) 0 (content (generate_state d))
   \<and> ordered_within (spans (elements (generate_state d))) 0 (length (content (generate_state d)))
   \<and> sum_list (map snd (spans (elements (generate_state d))))
       \<le> length (content (generate_state d))
   \<and> (gapfree d \<longrightarrow>
        partitions (spans (elements (generate_state d))) 0 (length (content (generate_state d)))
        \<and> sum_list (map snd (spans (elements (generate_state d))))
            = length (content (generate_state d)))"
proof (intro conjI impI)
  show t: "tiles {0x0A} (spans (elements (generate_state d))) 0 (content (generate_state d))"
    by (intro generate_state_tiles) simp
  from tiles_ordered_within [OF t]
  show o: "ordered_within (spans (elements (generate_state d))) 0
      (length (content (generate_state d)))"
    by simp
  from ordered_within_sum [OF o]
  show "sum_list (map snd (spans (elements (generate_state d))))
       \<le> length (content (generate_state d))"
    by simp
next
  assume "gapfree d"
  then have "tiles {} (spans (elements (generate_state d))) 0 (content (generate_state d))"
    by (intro generate_state_tiles) simp
  from tiles_partitions [OF this]
  show p: "partitions (spans (elements (generate_state d))) 0
      (length (content (generate_state d)))"
    by simp
  from partitions_sum [OF p]
  show "sum_list (map snd (spans (elements (generate_state d))))
            = length (content (generate_state d))"
    by simp
qed

lemma generate_state_example_gapfree:
  "content (generate_state
     [Paragraph (plainParagraph [plainText ''ab'', Tab]),
      Table (plainTable [[plainCell False [plainParagraph [plainText ''x'']], plainCell True []]])])
     = ascii ''ab'' @ [0x09] @ ascii ''x''
   \<and> spans (elements (generate_state
     [Paragraph (plainParagraph [plainText ''ab'', Tab]),
      Table (plainTable [[plainCell False [plainParagraph [plainText ''x'']], plainCell True []]])]))
     = [(0, 2), (2, 1), (3, 1)]"
  by (simp add: generate_state_def processParagraph_def processParagraph_finish_def
      processTable_def processTableCell_def processTable_cell_def
      plainParagraph_def plainText_def plainTable_def plainCell_def initial_state_def spans_def
      buildParagraphElement_def ascii_def Let_def)

theorem elements_tile_buffer_witness:
  "gapfree
     [Paragraph (plainParagraph [plainText ''ab'', Tab]),
      Table (plainTable [[plainCell False [plainParagraph [plainText ''x'']], plainCell True []]])]
   \<and> partitions [(0, 2), (2, 1), (3, 1)] 0 4
   \<and> spans (elements (generate_state
     [Paragraph (plainParagraph [plainText ''ab'', Tab]),
      Table (plainTable [[plainCell False [plainParagraph [plainText ''x'']], plainCell True []]])]))
     = [(0, 2), (2, 1), (3, 1)]
   \<and> length (content (generate_state
     [Paragraph (plainParagraph [plainText ''ab'', Tab]),
      Table (plainTable [[plainCell False [plainParagraph [plainText ''x'']], plainCell True []]])]))
     = 4"
proof -
  let ?d = "[Paragraph (plainParagraph [plainText ''ab'', Tab]),
      Table (plainTable [[plainCell False [plainParagraph [plainText ''x'']], plainCell True []]])]"
  have g: "gapfree ?d"
    by (simp add: gapfree_def gapfree_cell_def plainParagraph_def plainText_def plainTable_def
        plainCell_def cellFootnotes_def)
  have "partitions (spans (elements (generate_state ?d))) 0 (length (content (generate_state ?d)))"
    using elements_tile_buffer [of ?d] g by blast
  then show ?thesis
    using g generate_state_example_gapfree by (simp add: ascii_def)
qed

text \<open>
  The claim as stated fails on a body paragraph with a line break: the buffer has three
  characters, the two elements cover two of them, and the pairs do not partition it.
\<close>

theorem elements_partition_counterexample:
  "content (generate_state [Paragraph (plainParagraph [plainText ''a'', Break, plainText ''b''])])
     = [0x61, 0x0A, 0x62]
   \<and> spans (elements (generate_state
         [Paragraph (plainParagraph [plainText ''a'', Break, plainText ''b''])]))
     = [(0, 1), (2, 1)]
   \<and> sum_list (map snd (spans (elements (generate_state
         [Paragraph (plainParagraph [plainText ''a'', Break, plainText ''b''])])))) = 2
   \<and> length (content (generate_state
         [Paragraph (plainParagraph [plainText ''a'', Break, plainText ''b''])])) = 3
   \<and> \<not> partitions (spans (elements (generate_state
         [Paragraph (plainParagraph [plainText ''a'', Break, plainText ''b''])]))) 0
       (length (content (generate_state
         [Paragraph (plainParagraph [plainText ''a'', Break, plainText ''b''])])))"
proof -
  let ?d = "[Paragraph (plainParagraph [plainText ''a'', Break, plainText ''b''])]"
  have c: "content (generate_state ?d) = [0x61, 0x0A, 0x62]"
    and s: "spans (elements (generate_state ?d)) = [(0, 1), (2, 1)]"
    by (simp_all add: generate_state_def processParagraph_def processParagraph_finish_def
      plainParagraph_def plainText_def initial_state_def spans_def
      buildParagraphElement_def ascii_def Let_def)
  show ?thesis unfolding c s by simp
qed

section \<open>The two generators\<close>

lemma without_footnotes_simps:
  "content (without_footnotes s) = content s"
  "elements (without_footnotes s) = elements s"
  "currentOffset (without_footnotes s) = currentOffset s"
  "without_footnotes (s\<lparr>content := c\<rparr>) = (without_footnotes s)\<lparr>content := c\<rparr>"
  "without_footnotes (s\<lparr>elements := e\<rparr>) = (without_footnotes s)\<lparr>elements := e\<rparr>"
  "without_footnotes (s\<lparr>currentOffset := n\<rparr>) = (without_footnotes s)\<lparr>currentOffset := n\<rparr>"
  "without_footnotes (s\<lparr>collectedFootnotes := f\<rparr>) = without_footnotes s"
  by (simp_all add: without_footnotes_def)

lemma processParagraph_run_sim:
  assumes "runFootnotes [r] = []" and "collectedFootnotes s = []"
  shows "processParagraph_run0 p r pc pe (without_footnotes s) =
     (case processParagraph_run p r pc pe s of
        Inl s' \<Rightarrow> Inl (without_footnotes s')
      | Inr (pc', pe', s') \<Rightarrow> Inr (pc', pe', without_footnotes s'))"
  using assms by (cases r) (simp_all add: without_footnotes_simps Let_def)

lemma processParagraph_runs_sim:
  assumes "runFootnotes rs = []" and "collectedFootnotes s = []"
  shows "processParagraph_runs0 p rs pc pe (without_footnotes s) =
     (case processParagraph_runs p rs pc pe s of
        Inl s' \<Rightarrow> Inl (without_footnotes s')
      | Inr (pc', pe', s') \<Rightarrow> Inr (pc', pe', without_footnotes s'))"
  using assms
proof (induction rs arbitrary: pc pe s)
  case Nil
  show ?case by simp
next
  case (Cons r rs)
  from Cons.prems(1) runFootnotes_Cons [of r rs]
  have r: "runFootnotes [r] = []" and rs: "runFootnotes rs = []"
    by simp_all
  note step = processParagraph_run_sim [OF r Cons.prems(2), of p pc pe]
  show ?case
  proof (cases "processParagraph_run p r pc pe s")
    case (Inl s')
    with step show ?thesis by simp
  next
    case (Inr x)
    obtain pc1 pe1 s1 where x: "x = (pc1, pe1, s1)" by (cases x)
    have npb: "r \<noteq> PageBreak" using Inr by (auto simp add: Let_def)
    obtain pc2 pe2 s2 where "processParagraph_run p r pc pe s = Inr (pc2, pe2, s2)"
      and "collectedFootnotes s2 = collectedFootnotes s @ runFootnotes [r]"
      using processParagraph_run_Inr [OF npb] by blast
    with Inr x Cons.prems(2) r have f1: "collectedFootnotes s1 = []" by simp
    from Cons.IH [OF rs f1] step Inr x show ?thesis by simp
  qed
qed

lemma processParagraph_finish_sim:
  "processParagraph_finish0 p pc pe (without_footnotes s) =
     without_footnotes (processParagraph_finish p pc pe s)"
  by (simp add: processParagraph_finish0_def processParagraph_finish_def without_footnotes_simps)

lemma processParagraph_sim:
  assumes "runFootnotes (runs p) = []" and "collectedFootnotes s = []"
  shows "processParagraph0 p (without_footnotes s) = without_footnotes (processParagraph p s)"
  using processParagraph_runs_sim [OF assms, of p "[]" "[]"]
  by (simp add: processParagraph0_def processParagraph_def processParagraph_finish_sim
      split: sum.splits)

lemma processTableCell_run_sim:
  assumes "runFootnotes [r] = []"
  shows "processTableCell_run0 r pe (without_footnotes s) =
     (case processTableCell_run r pe s of (pe', s') \<Rightarrow> (pe', without_footnotes s'))"
  using assms by (cases r) (simp_all add: without_footnotes_simps)

lemma processTableCell_runs_sim:
  assumes "runFootnotes rs = []"
  shows "processTableCell_runs0 rs pe (without_footnotes s) =
     (case processTableCell_runs rs pe s of (pe', s') \<Rightarrow> (pe', without_footnotes s'))"
  using assms
proof (induction rs arbitrary: pe s)
  case Nil
  show ?case by simp
next
  case (Cons r rs)
  from Cons.prems runFootnotes_Cons [of r rs]
  have r: "runFootnotes [r] = []" and rs: "runFootnotes rs = []"
    by simp_all
  obtain pe1 s1 where step: "processTableCell_run r pe s = (pe1, s1)"
    by (cases "processTableCell_run r pe s")
  from processTableCell_run_sim [OF r, of pe s] step Cons.IH [OF rs, of pe1 s1]
  show ?case by simp
qed

lemma processTableCell_paragraphs_sim:
  assumes "list_all noFootnoteRefs_para ps"
  shows "processTableCell_paragraphs0 ps ces (without_footnotes s) =
     (case processTableCell_paragraphs ps ces s of (ces', s') \<Rightarrow> (ces', without_footnotes s'))"
  using assms
proof (induction ps arbitrary: ces s)
  case Nil
  show ?case by simp
next
  case (Cons p ps)
  from Cons.prems have p: "runFootnotes (runs p) = []"
    by (simp add: noFootnoteRefs_para_def)
  from Cons.prems have ps: "list_all noFootnoteRefs_para ps"
    by simp
  obtain pe1 s1 where runs: "processTableCell_runs (runs p) [] s = (pe1, s1)"
    by (cases "processTableCell_runs (runs p) [] s")
  from processTableCell_runs_sim [OF p, of "[]" s] runs
  have runs0: "processTableCell_runs0 (runs p) [] (without_footnotes s) = (pe1, without_footnotes s1)"
    by simp
  show ?case
    by (simp add: runs runs0 Let_def Cons.IH [OF ps] without_footnotes_simps [symmetric])
qed

lemma processTableCell_sim:
  assumes "noFootnoteRefs_cell c"
  shows "processTableCell0 c (without_footnotes s) =
     (case processTableCell c s of (cc, s') \<Rightarrow> (cc, without_footnotes s'))"
proof -
  obtain ces s1 where ps: "processTableCell_paragraphs (paragraphs c) [] s = (ces, s1)"
    by (cases "processTableCell_paragraphs (paragraphs c) [] s")
  from processTableCell_paragraphs_sim [of "paragraphs c" "[]" s] assms ps
  have ps0: "processTableCell_paragraphs0 (paragraphs c) [] (without_footnotes s)
      = (ces, without_footnotes s1)"
    by (simp add: noFootnoteRefs_cell_def)
  show ?thesis
    by (simp add: processTableCell0_def processTableCell_def ps ps0 without_footnotes_simps)
qed

lemma processTable_cell_sim:
  assumes "noFootnoteRefs_cell c"
  shows "processTable_cell0 c ces (without_footnotes s) =
     (case processTable_cell c ces s of (ces', s') \<Rightarrow> (ces', without_footnotes s'))"
proof -
  obtain cc s1 where cell: "processTableCell c s = (cc, s1)"
    by (cases "processTableCell c s")
  from processTableCell_sim [OF assms, of s] cell
  have "processTableCell0 c (without_footnotes s) = (cc, without_footnotes s1)" by simp
  with cell show ?thesis
    by (simp add: processTable_cell0_def processTable_cell_def)
qed

lemma processTable_cells_sim:
  assumes "list_all noFootnoteRefs_cell cs"
  shows "processTable_cells0 cs ces (without_footnotes s) =
     (case processTable_cells cs ces s of (ces', s') \<Rightarrow> (ces', without_footnotes s'))"
  using assms
proof (induction cs arbitrary: ces s)
  case Nil
  show ?case by simp
next
  case (Cons c cs)
  from Cons.prems have c: "noFootnoteRefs_cell c" and cs: "list_all noFootnoteRefs_cell cs"
    by simp_all
  obtain ces1 s1 where step: "processTable_cell c ces s = (ces1, s1)"
    by (cases "processTable_cell c ces s")
  from processTable_cell_sim [OF c, of ces s] step Cons.IH [OF cs, of ces1 s1]
  show ?case by simp
qed

lemma processTable_rows_sim:
  assumes "list_all noFootnoteRefs_cell (concat (map cells rs))"
  shows "processTable_rows0 rs i res (without_footnotes s) =
     (case processTable_rows rs i res s of (res', s') \<Rightarrow> (res', without_footnotes s'))"
  using assms
proof (induction rs arbitrary: i res s)
  case Nil
  show ?case by simp
next
  case (Cons r rs)
  from Cons.prems have r: "list_all noFootnoteRefs_cell (cells r)"
    and rs: "list_all noFootnoteRefs_cell (concat (map cells rs))"
    by simp_all
  obtain ces1 s1 where step: "processTable_cells (cells r) [] s = (ces1, s1)"
    by (cases "processTable_cells (cells r) [] s")
  from processTable_cells_sim [OF r, of "[]" s] step
  have "processTable_cells0 (cells r) [] (without_footnotes s) = (ces1, without_footnotes s1)"
    by simp
  with step Cons.IH [OF rs] show ?case by simp
qed

lemma processTable_sim:
  assumes "noFootnoteRefs_block (Table t)"
  shows "processTable0 t (without_footnotes s) = without_footnotes (processTable t s)"
proof -
  obtain res s1 where rows: "processTable_rows (rows t) 0 [] s = (res, s1)"
    by (cases "processTable_rows (rows t) 0 [] s")
  from processTable_rows_sim [of "rows t" 0 "[]" s] assms rows
  have "processTable_rows0 (rows t) 0 [] (without_footnotes s) = (res, without_footnotes s1)"
    by simp
  with rows show ?thesis
    by (simp add: processTable0_def processTable_def without_footnotes_simps)
qed

lemma noFootnoteRefs_tableFootnotes:
  "list_all noFootnoteRefs_cell cs \<Longrightarrow>
     concat (map cellFootnotes (filter (\<lambda>c. \<not> vMergeContinue c) cs)) = []"
proof (induction cs)
  case Nil
  show ?case by simp
next
  case (Cons c cs)
  then have "cellFootnotes c = []"
    by (auto simp add: noFootnoteRefs_cell_def noFootnoteRefs_para_def cellFootnotes_def
        list_all_iff)
  with Cons show ?case by simp
qed

lemma processElement_no_footnotes:
  assumes "noFootnoteRefs_block b" and "collectedFootnotes s = []"
  shows "collectedFootnotes (processElement b s) = []"
proof (cases b)
  case (Paragraph p)
  with assms show ?thesis
    by (simp add: processParagraph_footnotes noFootnoteRefs_para_def)
next
  case (Table t)
  with assms noFootnoteRefs_tableFootnotes [of "concat (map cells (rows t))"] show ?thesis
    by (simp add: processTable_footnotes tableFootnotes_def)
qed

lemma processElements_sim:
  assumes "list_all noFootnoteRefs_block bs" and "collectedFootnotes s = []"
  shows "processElements0 bs (without_footnotes s) = without_footnotes (processElements bs s)
         \<and> collectedFootnotes (processElements bs s) = []"
  using assms
proof (induction bs arbitrary: s)
  case Nil
  then show ?case by simp
next
  case (Cons b bs)
  from Cons.prems(1) have b: "noFootnoteRefs_block b" and bs: "list_all noFootnoteRefs_block bs"
    by simp_all
  have step: "processElement0 b (without_footnotes s) = without_footnotes (processElement b s)"
    using b Cons.prems(2)
    by (cases b) (simp_all add: processParagraph_sim processTable_sim noFootnoteRefs_para_def)
  note f = processElement_no_footnotes [OF b Cons.prems(2)]
  from Cons.IH [OF bs f] step show ?case by simp
qed

lemma generate_state_sim:
  assumes "noFootnoteRefs d"
  shows "generate_state0 d = without_footnotes (generate_state d)"
proof -
  have i: "initial_state0 = without_footnotes initial_state"
    by (simp add: initial_state0_def initial_state_def without_footnotes_def)
  have "collectedFootnotes initial_state = []" by (simp add: initial_state_def)
  from processElements_sim [OF assms [unfolded noFootnoteRefs_def] this]
  show ?thesis
    by (simp add: generate_state0_def generate_state_def i Let_def without_footnotes_simps)
qed

text \<open>
  C9.  For a document with no footnote-reference run the generator of
  \<open>src/js/udf-generator.js\<close> and the generator of \<open>src/unnamed/part_000\<close> produce the
  same buffer, the same element list and the same XML.
\<close>

theorem generators_agree:
  assumes "noFootnoteRefs d"
  shows "content (generate_state0 d) = content (generate_state d)
         \<and> elements (generate_state0 d) = elements (generate_state d)
         \<and> generate0 d = generate d"
  using generate_state_sim [OF assms]
  by (simp add: generate0_def generate_def generateXml_def without_footnotes_simps)

theorem generators_agree_witness:
  "noFootnoteRefs
     [Paragraph (plainParagraph [plainText ''ab'', Break, PageBreak, Tab]),
      Table (plainTable [[plainCell False [plainParagraph [plainText ''x'', Break]],
                          plainCell True []]])]
   \<and> generate0
     [Paragraph (plainParagraph [plainText ''ab'', Break, PageBreak, Tab]),
      Table (plainTable [[plainCell False [plainParagraph [plainText ''x'', Break]],
                          plainCell True []]])]
     = generate
     [Paragraph (plainParagraph [plainText ''ab'', Break, PageBreak, Tab]),
      Table (plainTable [[plainCell False [plainParagraph [plainText ''x'', Break]],
                          plainCell True []]])]
   \<and> content (generate_state0
     [Paragraph (plainParagraph [plainText ''ab'', Break, PageBreak, Tab]),
      Table (plainTable [[plainCell False [plainParagraph [plainText ''x'', Break]],
                          plainCell True []]])])
     = ascii ''ab'' @ [0x0A] @ ascii ''x''"
proof -
  let ?d = "[Paragraph (plainParagraph [plainText ''ab'', Break, PageBreak, Tab]),
      Table (plainTable [[plainCell False [plainParagraph [plainText ''x'', Break]],
                          plainCell True []]])]"
  have n: "noFootnoteRefs ?d"
    by (simp add: noFootnoteRefs_def noFootnoteRefs_cell_def noFootnoteRefs_para_def
        plainParagraph_def plainText_def plainTable_def plainCell_def)
  have "content (generate_state0 ?d) = ascii ''ab'' @ [0x0A] @ ascii ''x''"
    by (simp add: generate_state0_def processParagraph0_def processTable0_def
        processTableCell0_def processTable_cell0_def plainParagraph_def plainText_def
        plainTable_def plainCell_def initial_state0_def ascii_def Let_def)
  with n generators_agree [OF n] show ?thesis by simp
qed

end
